theory Spec2Isabelle
  imports Main "HOL-Library.AList" "HOL-Library.Multiset" "HOL-Library.Char_ord"
    "HOL-Library.List_Lexorder" "HOL-Library.Word"
begin

section \<open>JavaScript values and truthiness\<close>

text \<open>
  TypeScript generics are erased at run time: a worker result of type \<open>R\<close> is a JavaScript
  value. Numbers are modelled by the integers plus \<open>NaN\<close> (the program only ever counts).
  \<open>Boolean\<close> is JavaScript's \<open>Boolean(v)\<close>, the callback of \<open>results.filter(Boolean)\<close>:
  \<open>undefined\<close>, \<open>null\<close>, \<open>false\<close>, \<open>0\<close>, \<open>NaN\<close> and the empty string are falsy, every
  array and every object is truthy.
\<close>

datatype js_value =
    Undefined
  | Null
  | JBoolean bool
  | JNumber int
  | NaN
  | JString string
  | JArray "js_value list"
  | JObject "(string \<times> js_value) list"

fun Boolean :: "js_value \<Rightarrow> bool" where
  "Boolean Undefined = False"
| "Boolean Null = False"
| "Boolean (JBoolean b) = b"
| "Boolean (JNumber n) = (n \<noteq> 0)"
| "Boolean NaN = False"
| "Boolean (JString s) = (s \<noteq> [])"
| "Boolean (JArray xs) = True"
| "Boolean (JObject kvs) = True"

section \<open>The bounded concurrency scheduler: processWithPool\<close>

text \<open>
  A worker is \<open>processor : T \<Rightarrow> Promise<R>\<close>. The promise it returns settles later, either
  fulfilled with a value or rejected with an error (of which the scheduler reads
  \<open>err.message\<close>). The order in which the pending promises settle is not decided by the
  scheduler: it is the input \<open>pick\<close> of the model. A worker that throws before it returns
  a promise, and a rejection with \<open>null\<close> or \<open>undefined\<close> (whose \<open>message\<close> cannot be read),
  are outside the model: the workers of the program are \<open>async\<close> functions.
\<close>

datatype outcome = Fulfilled js_value | Rejected string

text \<open>
  The state of one call: the variables of the closure (\<open>results\<close>, \<open>_completed\<close>,
  \<open>runningCount\<close>, \<open>nextIndex\<close>), the value the returned promise has been resolved with
  (\<open>None\<close> while it is pending), and what the run does to its environment: the indices whose
  worker promise is pending (\<open>inflight\<close>, in dispatch order), the number of \<open>onProgress\<close>
  calls and the lines written by \<open>console.error\<close>. A slot of \<open>results\<close> is \<open>None\<close> while it
  is a hole of \<open>new Array(items.length)\<close>.
\<close>

record pool_state =
  results :: "js_value option list"
  completed :: nat
  runningCount :: int
  nextIndex :: nat
  inflight :: "nat list"
  resolved :: "js_value list option"
  progressCalls :: nat
  errors :: "string list"

definition initState :: "nat \<Rightarrow> pool_state" where
  "initState n =
     \<lparr>results = replicate n None, completed = 0, runningCount = 0, nextIndex = 0,
      inflight = [], resolved = None, progressCalls = 0, errors = []\<rparr>"

text \<open>\<open>results.filter(Boolean)\<close>: \<open>filter\<close> skips the holes and keeps the truthy values.\<close>

definition filterBoolean :: "js_value option list \<Rightarrow> js_value list" where
  "filterBoolean rs = filter Boolean (List.map_filter id rs)"

text \<open>\<open>resolve(v)\<close>: only the first call settles the promise.\<close>

definition resolve :: "js_value list \<Rightarrow> pool_state \<Rightarrow> pool_state" where
  "resolve v s = (case resolved s of None \<Rightarrow> s\<lparr>resolved := Some v\<rparr> | Some w \<Rightarrow> s)"

text \<open>
  \<open>processNext\<close> up to the call of \<open>processor(item)\<close>, which leaves a pending promise behind:
  the index joins \<open>inflight\<close>.
\<close>

definition processNext :: "'a list \<Rightarrow> pool_state \<Rightarrow> pool_state" where
  "processNext items s =
     (if nextIndex s \<ge> length items then
        (if runningCount s = 0 then resolve (filterBoolean (results s)) s else s)
      else
        s\<lparr>nextIndex := nextIndex s + 1,
          runningCount := runningCount s + 1,
          inflight := inflight s @ [nextIndex s]\<rparr>)"

text \<open>
  The promise of index \<open>i\<close> settles and its \<open>then\<close>, \<open>catch\<close> and \<open>finally\<close> callbacks run:
  \<open>complete\<close> is the \<open>then\<close> or the \<open>catch\<close> callback followed by \<open>runningCount--\<close>, and
  \<open>settle\<close> adds the call of \<open>processNext\<close> that ends the \<open>finally\<close> callback. The callbacks
  of different promises only touch their own slot and counters, so running the three of one
  promise in one step loses no behaviour. An index that is not in flight has no pending
  promise: nothing happens.
\<close>

definition complete :: "'a list \<Rightarrow> ('a \<Rightarrow> outcome) \<Rightarrow> bool \<Rightarrow> nat \<Rightarrow> pool_state \<Rightarrow> pool_state" where
  "complete items processor onProgress i s =
     (let s1 = (case processor (items ! i) of
                  Fulfilled result \<Rightarrow>
                    s\<lparr>results := (results s)[i := Some result],
                      progressCalls := progressCalls s + (if onProgress then 1 else 0),
                      completed := completed s + 1\<rparr>
                | Rejected message \<Rightarrow>
                    s\<lparr>errors := errors s @ [''Error processing item: '' @ message]\<rparr>)
      in s1\<lparr>runningCount := runningCount s1 - 1, inflight := remove1 i (inflight s1)\<rparr>)"

definition settle :: "'a list \<Rightarrow> ('a \<Rightarrow> outcome) \<Rightarrow> bool \<Rightarrow> nat \<Rightarrow> pool_state \<Rightarrow> pool_state" where
  "settle items processor onProgress i s =
     (if i \<notin> set (inflight s) then s
      else processNext items (complete items processor onProgress i s))"

text \<open>
  \<open>Math.min(concurrencyLimit, items.length)\<close> and the loop that calls \<open>processNext\<close> that many
  times. The limit is a number of slots, a natural number.
\<close>

definition initialBatch :: "nat \<Rightarrow> 'a list \<Rightarrow> nat" where
  "initialBatch concurrencyLimit items = min concurrencyLimit (length items)"

definition start :: "'a list \<Rightarrow> nat \<Rightarrow> pool_state" where
  "start items concurrencyLimit =
     (processNext items ^^ initialBatch concurrencyLimit items) (initState (length items))"

text \<open>
  The event loop: as long as a worker promise is pending, one of them settles; \<open>pick\<close>
  chooses which, from the whole state, so every completion order is some \<open>pick\<close>. The
  function returns when every dispatched worker has settled.
\<close>

function drain :: "'a list \<Rightarrow> ('a \<Rightarrow> outcome) \<Rightarrow> bool \<Rightarrow> (pool_state \<Rightarrow> nat) \<Rightarrow> pool_state \<Rightarrow> pool_state" where
  "drain items processor onProgress pick s =
     (if inflight s = [] then s
      else drain items processor onProgress pick
             (settle items processor onProgress
                (inflight s ! (pick s mod length (inflight s))) s))"
  by pat_completeness auto
termination
proof (relation "measure (\<lambda>(items, processor, onProgress, pick, s).
                   2 * (length items - nextIndex s) + length (inflight s))")
  show "wf (measure (\<lambda>(items :: 'a list, processor :: 'a \<Rightarrow> outcome, onProgress :: bool,
                       pick :: pool_state \<Rightarrow> nat, s).
                   2 * (length items - nextIndex s) + length (inflight s)))"
    by simp
next
  fix items :: "'a list" and processor :: "'a \<Rightarrow> outcome" and onProgress :: bool
    and pick :: "pool_state \<Rightarrow> nat" and s :: pool_state
  assume ne: "inflight s \<noteq> []"
  define i where "i = inflight s ! (pick s mod length (inflight s))"
  have mem: "i \<in> set (inflight s)"
    unfolding i_def using ne by simp
  have len: "length (remove1 i (inflight s)) < length (inflight s)"
    using mem length_pos_if_in_set [OF mem] by (simp add: length_remove1)
  have "2 * (length items - nextIndex (settle items processor onProgress i s))
          + length (inflight (settle items processor onProgress i s))
        < 2 * (length items - nextIndex s) + length (inflight s)"
    using mem len
    by (cases "processor (items ! i)")
       (auto simp: settle_def complete_def processNext_def resolve_def Let_def
             split: option.splits)
  then show "((items, processor, onProgress, pick,
               settle items processor onProgress
                 (inflight s ! (pick s mod length (inflight s))) s),
              (items, processor, onProgress, pick, s))
             \<in> measure (\<lambda>(items, processor, onProgress, pick, s).
                   2 * (length items - nextIndex s) + length (inflight s))"
    by (simp add: i_def)
qed

declare drain.simps [simp del]

text \<open>
  The whole call: the state once every dispatched worker has settled. Its field
  \<open>resolved\<close> is the value of the promise \<open>processWithPool\<close> returned, \<open>None\<close> when that
  promise is still pending with nothing left that could resolve it.
\<close>

definition processWithPool ::
  "'a list \<Rightarrow> nat \<Rightarrow> ('a \<Rightarrow> outcome) \<Rightarrow> bool \<Rightarrow> (pool_state \<Rightarrow> nat) \<Rightarrow> pool_state" where
  "processWithPool items concurrencyLimit processor onProgress pick =
     drain items processor onProgress pick (start items concurrencyLimit)"

text \<open>A run observed after any finite sequence of completions, in the order given.\<close>

fun settleAll :: "'a list \<Rightarrow> ('a \<Rightarrow> outcome) \<Rightarrow> bool \<Rightarrow> nat list \<Rightarrow> pool_state \<Rightarrow> pool_state" where
  "settleAll items processor onProgress [] s = s"
| "settleAll items processor onProgress (i # is) s =
     settleAll items processor onProgress is (settle items processor onProgress i s)"

definition CONCURRENCY_LIMIT :: nat where
  "CONCURRENCY_LIMIT = 50"


text \<open>
  Two completion orders and two workers for concrete runs: \<open>fifo\<close> settles the promise
  dispatched first, \<open>lifo\<close> the one dispatched last (reversed latencies);
  \<open>numberWorker\<close> is \<open>async (n) => n\<close>, and \<open>failsOnTwo\<close> is the same worker throwing
  on the item 2.
\<close>

definition fifo :: "pool_state \<Rightarrow> nat" where
  "fifo s = 0"

definition lifo :: "pool_state \<Rightarrow> nat" where
  "lifo s = length (inflight s) - 1"

definition numberWorker :: "int \<Rightarrow> outcome" where
  "numberWorker n = Fulfilled (JNumber n)"

definition failsOnTwo :: "int \<Rightarrow> outcome" where
  "failsOnTwo n = (if n = 2 then Rejected ''boom'' else Fulfilled (JNumber n))"

subsection \<open>What a settled worker leaves behind\<close>

text \<open>
  \<open>slot\<close> is the content of a result slot once the worker of its item has settled: the
  value of a fulfilled promise, a hole for a rejected one. \<open>truthyResult\<close> holds of an item
  whose worker fulfils with a truthy value.
\<close>

definition slot :: "('a \<Rightarrow> outcome) \<Rightarrow> 'a \<Rightarrow> js_value option" where
  "slot processor item = (case processor item of Fulfilled v \<Rightarrow> Some v | Rejected m \<Rightarrow> None)"

definition truthyResult :: "('a \<Rightarrow> outcome) \<Rightarrow> 'a \<Rightarrow> bool" where
  "truthyResult processor item =
     (case processor item of Fulfilled v \<Rightarrow> Boolean v | Rejected m \<Rightarrow> False)"

subsection \<open>Invariants of a run\<close>

definition pool_inv :: "'a list \<Rightarrow> ('a \<Rightarrow> outcome) \<Rightarrow> pool_state \<Rightarrow> bool" where
  "pool_inv items processor s \<longleftrightarrow>
     length (results s) = length items \<and>
     nextIndex s \<le> length items \<and>
     distinct (inflight s) \<and>
     (\<forall>i \<in> set (inflight s). i < nextIndex s) \<and>
     runningCount s = int (length (inflight s)) \<and>
     (\<forall>i < length items. results s ! i =
        (if i < nextIndex s \<and> i \<notin> set (inflight s) then slot processor (items ! i) else None))"

definition pool_done :: "'a list \<Rightarrow> pool_state \<Rightarrow> bool" where
  "pool_done items s \<longleftrightarrow>
     resolved s = (if nextIndex s \<ge> length items \<and> inflight s = []
                   then Some (filterBoolean (results s)) else None)"

definition pool_full :: "'a list \<Rightarrow> nat \<Rightarrow> pool_state \<Rightarrow> bool" where
  "pool_full items concurrencyLimit s \<longleftrightarrow>
     length (inflight s) \<le> min concurrencyLimit (length items) \<and>
     (nextIndex s < length items \<longrightarrow> length (inflight s) = min concurrencyLimit (length items))"

definition pool_ok :: "'a list \<Rightarrow> nat \<Rightarrow> ('a \<Rightarrow> outcome) \<Rightarrow> pool_state \<Rightarrow> bool" where
  "pool_ok items concurrencyLimit processor s \<longleftrightarrow>
     pool_inv items processor s \<and> pool_full items concurrencyLimit s"

section \<open>Strings\<close>

text \<open>
  A JavaScript string is a sequence of UTF-16 code units. \<open>ascii\<close> reads a literal.
  \<open>trim\<close> removes white space and line terminators at both ends: tab, line feed, vertical
  tab, form feed, carriage return, space, no-break space, the other space separators of
  Unicode (U+1680, U+2000 to U+200A, U+202F, U+205F, U+3000), the line and paragraph
  separators and the byte order mark. The other methods only compare characters and are
  written for any type of character. \<open>split\<close> is \<open>s.split(sep)\<close> for a separator of one
  character: it returns one more piece than there are separators (never the empty list, so
  the first case of the \<open>case\<close> below is never taken).
\<close>

type_synonym code_unit = "16 word"

type_synonym js_string = "code_unit list"

definition ascii :: "string \<Rightarrow> js_string" where
  "ascii s = map of_char s"

definition isWhitespace :: "code_unit \<Rightarrow> bool" where
  "isWhitespace c \<longleftrightarrow>
     c \<in> set [0x0009, 0x000A, 0x000B, 0x000C, 0x000D, 0x0020, 0x00A0, 0x1680, 0x2028, 0x2029,
               0x202F, 0x205F, 0x3000, 0xFEFF]
     \<or> (0x2000 \<le> c \<and> c \<le> 0x200A)"

definition trim :: "js_string \<Rightarrow> js_string" where
  "trim s = rev (dropWhile isWhitespace (rev (dropWhile isWhitespace s)))"

definition startsWith :: "'c list \<Rightarrow> 'c list \<Rightarrow> bool" where
  "startsWith s p \<longleftrightarrow> take (length p) s = p"

definition endsWith :: "'c list \<Rightarrow> 'c list \<Rightarrow> bool" where
  "endsWith s p \<longleftrightarrow> length p \<le> length s \<and> drop (length s - length p) s = p"

definition includesChar :: "'c list \<Rightarrow> 'c \<Rightarrow> bool" where
  "includesChar s c \<longleftrightarrow> c \<in> set s"

fun split :: "'c list \<Rightarrow> 'c \<Rightarrow> 'c list list" where
  "split [] sep = [[]]"
| "split (c # cs) sep =
     (case split cs sep of
        [] \<Rightarrow> [[c]]
      | piece # pieces \<Rightarrow> (if c = sep then [] # piece # pieces else (c # piece) # pieces))"

abbreviation newline :: char where
  "newline \<equiv> CHR 0x0A"

abbreviation lineFeed :: code_unit where
  "lineFeed \<equiv> 0x000A"

abbreviation hash :: code_unit where
  "hash \<equiv> 0x0023"

abbreviation bang :: code_unit where
  "bang \<equiv> 0x0021"

abbreviation slash :: code_unit where
  "slash \<equiv> 0x002F"

abbreviation noBreakSpace :: code_unit where
  "noBreakSpace \<equiv> 0x00A0"

section \<open>The ignore-file translation: parseGitignore\<close>

text \<open>
  \<open>gitignoreLine\<close> is the body of the loop over the lines of the file, with the array
  \<open>gitignorePatterns\<close> passed through; \<open>continue\<close> returns it unchanged and \<open>push\<close> appends.
  The argument of \<open>parseGitignore\<close> is the file \<open>.gitignore\<close> of the directory: absent,
  unreadable (\<open>exists\<close> or \<open>text\<close> throws, before the loop starts) or with a content, the
  string \<open>text\<close> returns.
\<close>

definition gitignoreLine :: "js_string list \<Rightarrow> js_string \<Rightarrow> js_string list" where
  "gitignoreLine gitignorePatterns rawLine =
     (let line = trim rawLine in
      if line = [] \<or> startsWith line [hash] then gitignorePatterns
      else if startsWith line [bang] then gitignorePatterns
      else
        let pattern1 = (if endsWith line [slash] then butlast line @ ascii ''/**'' else line);
            pattern2 = (if \<not> startsWith pattern1 [slash] \<and> \<not> includesChar pattern1 slash
                        then ascii ''**/'' @ pattern1 else pattern1);
            pattern3 = (if startsWith pattern2 [slash] then drop 1 pattern2 else pattern2)
        in gitignorePatterns @ [pattern3])"

datatype gitignore_file = Absent | Unreadable | Content js_string

definition parseGitignore :: "gitignore_file \<Rightarrow> js_string list" where
  "parseGitignore file =
     (case file of
        Absent \<Rightarrow> []
      | Unreadable \<Rightarrow> []
      | Content gitignoreContent \<Rightarrow> foldl gitignoreLine [] (split gitignoreContent lineFeed))"

section \<open>The authorship extractor: getAuthorsFromFile\<close>

text \<open>
  The function runs \<open>git blame\<close> in \<open>targetDir\<close> on the path of the file relative to it.
  \<open>path.relative\<close> and the blame oracle are inputs of the model: \<open>gitBlame cwd path\<close> is what
  spawning the process in \<open>cwd\<close> for \<open>path\<close> and reading its output does, either something
  in the \<open>try\<close> block throws (the process cannot be spawned, its output cannot be read), or
  the process exits with a code and the text of its standard output. The exit code is
  awaited and never read. \<open>filterUser\<close> is an optional string, tested by
  \<open>if (filterUser)\<close>: a missing filter and the empty string are both falsy.
\<close>

datatype blame = Threw | Exited int string

datatype extraction = Authors "string list" | Count nat

definition truthyFilter :: "string option \<Rightarrow> bool" where
  "truthyFilter filterUser = (case filterUser of None \<Rightarrow> False | Some u \<Rightarrow> u \<noteq> [])"

definition authorLine :: "string list \<Rightarrow> string \<Rightarrow> string list" where
  "authorLine authors line =
     (if startsWith line ''author '' then authors @ [drop 7 line] else authors)"

definition getAuthorsFromFile ::
  "(string \<Rightarrow> string \<Rightarrow> string) \<Rightarrow> (string \<Rightarrow> string \<Rightarrow> blame) \<Rightarrow>
   string \<Rightarrow> string \<Rightarrow> string option \<Rightarrow> extraction" where
  "getAuthorsFromFile relative gitBlame filepath targetDir filterUser =
     (let relativePath = relative targetDir filepath in
      case gitBlame targetDir relativePath of
        Threw \<Rightarrow> (if truthyFilter filterUser then Count 0 else Authors [])
      | Exited code output \<Rightarrow>
          (let authors = foldl authorLine [] (split output newline) in
           if truthyFilter filterUser
           then Count (length (filter (\<lambda>author. Some author = filterUser) authors))
           else Authors authors))"

text \<open>
  For concrete runs: a blame text with, for each author of a list, the lines of one record
  of \<open>--line-porcelain\<close> that matter here (the \<open>author\<close> line, an \<open>author-mail\<close> line and the
  source line after a tab); an oracle that prints a given text for every file, and one
  that cannot be spawned; and a \<open>relative\<close> for a file below the directory.
\<close>

definition porcelain :: "string list \<Rightarrow> string" where
  "porcelain as = concat (map (\<lambda>a. ''author '' @ a @ [newline] @ ''author-mail <m@x>'' @ [newline]
                                   @ [CHR 0x09] @ ''code'' @ [newline]) as)"

definition blamePrints :: "string \<Rightarrow> string \<Rightarrow> string \<Rightarrow> blame" where
  "blamePrints text cwd path = Exited 0 text"

definition blameThrows :: "string \<Rightarrow> string \<Rightarrow> blame" where
  "blameThrows cwd path = Threw"

definition relativeBelow :: "string \<Rightarrow> string \<Rightarrow> string" where
  "relativeBelow from to = drop (length from + 1) to"

section \<open>The aggregator and the sort for output\<close>

text \<open>
  The tally is a plain object \<open>{}\<close>, modelled by the list of its own properties in
  insertion order: assigning to a key it has keeps the key's place, assigning to a new key
  appends. Reading \<open>authorCounts[author]\<close> for a key the object does not have goes to
  \<open>Object.prototype\<close>: for the name of one of its methods the value is a function, which is
  truthy, and \<open>+ 1\<close> appends the character \<open>1\<close> to the text of the function, a string that
  is then stored under the key; for \<open>__proto__\<close> the value is \<open>Object.prototype\<close> itself, and
  the assignment calls a setter that ignores a string, so nothing is stored. For every
  other key the value is \<open>undefined\<close> and \<open>undefined || 0\<close> is \<open>0\<close>. A stored value is
  therefore a number of lines, or the text of the method named followed by a number of
  characters \<open>1\<close>. \<open>countAuthor\<close> is the body of the loop of \<open>displayGeneralContributions\<close>.
\<close>

datatype tally_value = Lines nat | MemberText js_string nat

definition objectPrototypeMethods :: "js_string list" where
  "objectPrototypeMethods =
     map ascii [''constructor'', ''hasOwnProperty'', ''isPrototypeOf'', ''propertyIsEnumerable'',
                ''toLocaleString'', ''toString'', ''valueOf'', ''__defineGetter__'',
                ''__defineSetter__'', ''__lookupGetter__'', ''__lookupSetter__'']"

definition countAuthor ::
  "(js_string \<times> tally_value) list \<Rightarrow> js_string \<Rightarrow> (js_string \<times> tally_value) list" where
  "countAuthor authorCounts author =
     (if trim author \<noteq> [] then
        (case map_of authorCounts author of
           Some (Lines c) \<Rightarrow> AList.update author (Lines (c + 1)) authorCounts
         | Some (MemberText name ones) \<Rightarrow>
             AList.update author (MemberText name (ones + 1)) authorCounts
         | None \<Rightarrow>
             if author = ascii ''__proto__'' then authorCounts
             else if author \<in> set objectPrototypeMethods
             then AList.update author (MemberText author 1) authorCounts
             else AList.update author (Lines 1) authorCounts)
      else authorCounts)"

definition authorCounts :: "js_string list \<Rightarrow> (js_string \<times> tally_value) list" where
  "authorCounts allAuthors = foldl countAuthor [] allAuthors"

text \<open>
  \<open>Object.entries\<close> lists the keys that are array indices first (canonical decimal strings
  below \<open>2^32 - 1\<close>), in ascending numeric order, then the other keys in insertion order.
\<close>

definition isDigit :: "code_unit \<Rightarrow> bool" where
  "isDigit c \<longleftrightarrow> 0x0030 \<le> c \<and> c \<le> 0x0039"

definition parseIndex :: "js_string \<Rightarrow> int" where
  "parseIndex s = foldl (\<lambda>n c. 10 * n + (uint c - 48)) 0 s"

definition isArrayIndex :: "js_string \<Rightarrow> bool" where
  "isArrayIndex s \<longleftrightarrow>
     s \<noteq> [] \<and> list_all isDigit s \<and> (s = ascii ''0'' \<or> hd s \<noteq> 0x0030) \<and>
     parseIndex s < 4294967295"

definition Object_entries :: "(js_string \<times> 'v) list \<Rightarrow> (js_string \<times> 'v) list" where
  "Object_entries obj =
     sort_key (\<lambda>e. parseIndex (fst e)) (filter (\<lambda>e. isArrayIndex (fst e)) obj)
     @ filter (\<lambda>e. \<not> isArrayIndex (fst e)) obj"

text \<open>
  \<open>Array.prototype.sort\<close> with a comparator is a stable sort: an element goes before
  another when the comparator is negative, a comparator result \<open>NaN\<close> (here \<open>None\<close>) counts as
  \<open>0\<close>, and elements that compare equal keep their order. \<open>byCountDesc\<close> is the comparator
  \<open>([, a], [, b]) => b - a\<close> of both display functions: the subtraction converts both values
  to numbers and is \<open>NaN\<close> when one of them is no number. A number of lines is a number, the
  text of a method is not. The values of the \<open>Record<string, number>\<close> that
  \<open>displayUserContributions\<close> receives are numbers. (When some value is no number the
  comparator is not consistent and the language leaves the order to the engine; the model
  is then the result of a stable insertion.)
\<close>

fun insertBy :: "('a \<Rightarrow> 'a \<Rightarrow> int option) \<Rightarrow> 'a \<Rightarrow> 'a list \<Rightarrow> 'a list" where
  "insertBy cmp x [] = [x]"
| "insertBy cmp x (y # ys) =
     (if (case cmp x y of None \<Rightarrow> 0 | Some v \<Rightarrow> v) \<le> 0 then x # y # ys
      else y # insertBy cmp x ys)"

definition sortBy :: "('a \<Rightarrow> 'a \<Rightarrow> int option) \<Rightarrow> 'a list \<Rightarrow> 'a list" where
  "sortBy cmp xs = foldr (insertBy cmp) xs []"

fun tallyNumber :: "tally_value \<Rightarrow> int option" where
  "tallyNumber (Lines n) = Some (int n)"
| "tallyNumber (MemberText name ones) = None"

definition countNumber :: "nat \<Rightarrow> int option" where
  "countNumber n = Some (int n)"

definition byCountDesc ::
  "('v \<Rightarrow> int option) \<Rightarrow> js_string \<times> 'v \<Rightarrow> js_string \<times> 'v \<Rightarrow> int option" where
  "byCountDesc toNumber x y =
     (case toNumber (snd y) of
        None \<Rightarrow> None
      | Some b \<Rightarrow> (case toNumber (snd x) of None \<Rightarrow> None | Some a \<Rightarrow> Some (b - a)))"

definition sortedAuthors :: "js_string list \<Rightarrow> (js_string \<times> tally_value) list" where
  "sortedAuthors allAuthors =
     sortBy (byCountDesc tallyNumber) (Object_entries (authorCounts allAuthors))"

definition sortedFiles :: "(js_string \<times> nat) list \<Rightarrow> (js_string \<times> nat) list" where
  "sortedFiles userFileContributions =
     sortBy (byCountDesc countNumber) (Object_entries userFileContributions)"


section \<open>Properties of the scheduler\<close>

subsection \<open>The steps, field by field\<close>

lemma complete_fields:
  "results (complete items processor onProgress i s) =
     (case processor (items ! i) of Fulfilled v \<Rightarrow> (results s)[i := Some v]
                                  | Rejected m \<Rightarrow> results s)"
  "nextIndex (complete items processor onProgress i s) = nextIndex s"
  "inflight (complete items processor onProgress i s) = remove1 i (inflight s)"
  "runningCount (complete items processor onProgress i s) = runningCount s - 1"
  "resolved (complete items processor onProgress i s) = resolved s"
  by (simp_all add: complete_def Let_def split: outcome.split)

lemma processNext_dispatch:
  assumes "nextIndex s < length items"
  shows "results (processNext items s) = results s"
    and "nextIndex (processNext items s) = Suc (nextIndex s)"
    and "inflight (processNext items s) = inflight s @ [nextIndex s]"
    and "runningCount (processNext items s) = runningCount s + 1"
    and "resolved (processNext items s) = resolved s"
  using assms by (simp_all add: processNext_def)

lemma processNext_finished:
  assumes "length items \<le> nextIndex s"
  shows "results (processNext items s) = results s"
    and "nextIndex (processNext items s) = nextIndex s"
    and "inflight (processNext items s) = inflight s"
    and "runningCount (processNext items s) = runningCount s"
    and "resolved (processNext items s) =
           (if runningCount s = 0
            then (case resolved s of None \<Rightarrow> Some (filterBoolean (results s)) | Some w \<Rightarrow> Some w)
            else resolved s)"
  using assms by (simp_all add: processNext_def resolve_def split: option.split)

lemma ramp_state:
  "k \<le> length items \<Longrightarrow>
   (processNext items ^^ k) (initState (length items)) =
     (initState (length items))\<lparr>nextIndex := k, runningCount := int k, inflight := [0..<k]\<rparr>"
proof (induction k)
  case 0
  then show ?case by (simp add: initState_def)
next
  case (Suc k)
  then show ?case by (simp add: processNext_def initState_def)
qed

lemma start_state:
  "start items concurrencyLimit =
     (initState (length items))\<lparr>nextIndex := initialBatch concurrencyLimit items,
        runningCount := int (initialBatch concurrencyLimit items),
        inflight := [0..<initialBatch concurrencyLimit items]\<rparr>"
  unfolding start_def by (rule ramp_state) (simp add: initialBatch_def)

lemma pool_inv_start: "pool_inv items processor (start items concurrencyLimit)"
  by (simp add: start_state pool_inv_def initState_def initialBatch_def)

lemma pool_full_start: "pool_full items concurrencyLimit (start items concurrencyLimit)"
  by (simp add: start_state pool_full_def initState_def initialBatch_def)

lemma pool_done_start:
  "items \<noteq> [] \<Longrightarrow> 0 < concurrencyLimit \<Longrightarrow> pool_done items (start items concurrencyLimit)"
  by (simp add: start_state pool_done_def initState_def initialBatch_def)

lemma pool_inv_complete:
  assumes inv: "pool_inv items processor s" and mem: "i \<in> set (inflight s)"
  shows "pool_inv items processor (complete items processor onProgress i s)"
proof -
  let ?c = "complete items processor onProgress i s"
  have i_lt: "i < nextIndex s" and n_le: "nextIndex s \<le> length items"
    using inv mem by (auto simp: pool_inv_def)
  have len: "length (results ?c) = length items"
    using inv by (simp add: complete_fields pool_inv_def split: outcome.split)
  have dist: "distinct (inflight ?c)"
    using inv by (simp add: complete_fields pool_inv_def)
  have sub: "\<forall>j \<in> set (inflight ?c). j < nextIndex ?c"
    using inv by (auto simp: complete_fields pool_inv_def dest: notin_set_remove1)
  have pos: "0 < length (inflight s)"
    using mem by (rule length_pos_if_in_set)
  have l: "length (inflight ?c) = length (inflight s) - 1"
    using mem by (simp add: complete_fields length_remove1)
  have "int (length (inflight s) - 1) = int (length (inflight s)) - 1"
    using pos by arith
  then have rc: "runningCount ?c = int (length (inflight ?c))"
    using inv by (simp add: l complete_fields(4) pool_inv_def)
  have set_c: "set (remove1 i (inflight s)) = set (inflight s) - {i}"
    using inv by (simp add: pool_inv_def)
  have slots: "\<forall>j < length items. results ?c ! j =
        (if j < nextIndex ?c \<and> j \<notin> set (inflight ?c) then slot processor (items ! j) else None)"
  proof (intro allI impI)
    fix j assume j: "j < length items"
    have old: "results s ! j =
        (if j < nextIndex s \<and> j \<notin> set (inflight s) then slot processor (items ! j) else None)"
      using inv j by (simp add: pool_inv_def)
    have lr: "length (results s) = length items"
      using inv by (simp add: pool_inv_def)
    show "results ?c ! j =
        (if j < nextIndex ?c \<and> j \<notin> set (inflight ?c) then slot processor (items ! j) else None)"
    proof (cases "j = i")
      case True
      then show ?thesis
        using old mem i_lt j lr
        by (simp add: set_c complete_fields slot_def split: outcome.split)
    next
      case False
      then show ?thesis
        using old j lr
        by (simp add: set_c complete_fields split: outcome.split)
    qed
  qed
  show ?thesis
    unfolding pool_inv_def
    using len n_le dist sub rc slots by (simp add: complete_fields(2))
qed

lemma pool_inv_processNext:
  assumes inv: "pool_inv items processor s"
  shows "pool_inv items processor (processNext items s)"
proof (cases "nextIndex s < length items")
  case True
  show ?thesis
    using inv True
    unfolding pool_inv_def processNext_dispatch [OF True]
    by (auto simp: less_Suc_eq)
next
  case False
  then have fin: "length items \<le> nextIndex s" by simp
  show ?thesis
    using inv
    unfolding pool_inv_def processNext_finished(1-4) [OF fin]
    by simp
qed

lemma pool_inv_settle:
  "pool_inv items processor s \<Longrightarrow> pool_inv items processor (settle items processor onProgress i s)"
  by (simp add: settle_def pool_inv_complete pool_inv_processNext)


lemma pool_done_settle:
  assumes inv: "pool_inv items processor s" and dn: "pool_done items s"
  shows "pool_done items (settle items processor onProgress i s)"
proof (cases "i \<in> set (inflight s)")
  case False
  then show ?thesis using dn by (simp add: settle_def)
next
  case True
  let ?c = "complete items processor onProgress i s"
  have ne: "inflight s \<noteq> []" using True by auto
  then have unres: "resolved ?c = None"
    using dn by (simp add: pool_done_def complete_fields(5))
  have rc: "runningCount ?c = int (length (inflight ?c))"
    using pool_inv_complete [OF inv True] by (simp add: pool_inv_def)
  have st: "settle items processor onProgress i s = processNext items ?c"
    using True by (simp add: settle_def)
  show ?thesis
  proof (cases "nextIndex ?c < length items")
    case True
    show ?thesis
      unfolding st pool_done_def processNext_dispatch [OF True]
      using unres by simp
  next
    case False
    then have fin: "length items \<le> nextIndex ?c" by simp
    show ?thesis
      unfolding st pool_done_def processNext_finished [OF fin]
      using unres rc fin by simp
  qed
qed

lemma pool_full_settle:
  assumes inv: "pool_inv items processor s" and fl: "pool_full items concurrencyLimit s"
  shows "pool_full items concurrencyLimit (settle items processor onProgress i s)"
proof (cases "i \<in> set (inflight s)")
  case False
  then show ?thesis using fl by (simp add: settle_def)
next
  case True
  let ?c = "complete items processor onProgress i s"
  have pos: "0 < length (inflight s)"
    using True by (rule length_pos_if_in_set)
  have l: "length (inflight ?c) = length (inflight s) - 1"
    using True by (simp add: complete_fields length_remove1)
  have nx: "nextIndex ?c = nextIndex s"
    by (simp add: complete_fields)
  have st: "settle items processor onProgress i s = processNext items ?c"
    using True by (simp add: settle_def)
  have bound: "length (inflight s) \<le> min concurrencyLimit (length items)"
    using fl by (simp add: pool_full_def)
  show ?thesis
  proof (cases "nextIndex ?c < length items")
    case True
    then have "length (inflight s) = min concurrencyLimit (length items)"
      using fl by (simp add: nx pool_full_def)
    moreover have "length (inflight (processNext items ?c)) = length (inflight s)"
      using pos by (simp add: processNext_dispatch [OF True] l)
    ultimately show ?thesis
      unfolding st pool_full_def by simp
  next
    case False
    then have fin: "length items \<le> nextIndex ?c" by simp
    have "length (inflight (processNext items ?c)) \<le> length (inflight s)"
      by (simp add: processNext_finished [OF fin] l)
    moreover have "\<not> nextIndex (processNext items ?c) < length items"
      using fin by (simp add: processNext_finished [OF fin])
    ultimately show ?thesis
      unfolding st pool_full_def using bound by simp
  qed
qed

subsection \<open>The invariants along a run\<close>

lemma pool_ok_settle:
  "pool_ok items concurrencyLimit processor s \<Longrightarrow>
   pool_ok items concurrencyLimit processor (settle items processor onProgress i s)"
  by (simp add: pool_ok_def pool_inv_settle pool_full_settle)

lemma pool_ok_start: "pool_ok items concurrencyLimit processor (start items concurrencyLimit)"
  by (simp add: pool_ok_def pool_inv_start pool_full_start)

lemma pool_ok_settleAll:
  "pool_ok items concurrencyLimit processor s \<Longrightarrow>
   pool_ok items concurrencyLimit processor (settleAll items processor onProgress ks s)"
  by (induction ks arbitrary: s) (simp_all add: pool_ok_settle)

lemma pool_ok_drain:
  "pool_ok items concurrencyLimit processor s \<and> pool_done items s \<Longrightarrow>
   pool_ok items concurrencyLimit processor (drain items processor onProgress pick s) \<and>
   pool_done items (drain items processor onProgress pick s)"
proof (induction items processor onProgress pick s rule: drain.induct)
  case (1 items processor onProgress pick s)
  show ?case
  proof (cases "inflight s = []")
    case True
    then show ?thesis
      using "1.prems" by (simp add: drain.simps [of items processor onProgress pick s])
  next
    case False
    let ?i = "inflight s ! (pick s mod length (inflight s))"
    have "pool_ok items concurrencyLimit processor (settle items processor onProgress ?i s)"
      using "1.prems" by (simp add: pool_ok_settle)
    moreover have "pool_done items (settle items processor onProgress ?i s)"
      using "1.prems" by (simp add: pool_ok_def pool_done_settle)
    ultimately show ?thesis
      using "1.IH" [OF False] False
      by (simp add: drain.simps [of items processor onProgress pick s])
  qed
qed

lemma drain_idle: "inflight s = [] \<Longrightarrow> drain items processor onProgress pick s = s"
  by (simp add: drain.simps [of items processor onProgress pick s])

lemma inflight_drain: "inflight (drain items processor onProgress pick s) = []"
proof (induction items processor onProgress pick s rule: drain.induct)
  case (1 items processor onProgress pick s)
  show ?case
  proof (cases "inflight s = []")
    case True
    then show ?thesis by (simp add: drain.simps [of items processor onProgress pick s])
  next
    case False
    then show ?thesis
      using "1.IH" [OF False]
      by (simp add: drain.simps [of items processor onProgress pick s])
  qed
qed

lemma pool_final:
  assumes inv: "pool_inv items processor s" and dn: "pool_done items s"
    and fl: "pool_full items concurrencyLimit s"
    and ne: "items \<noteq> []" and lim: "0 < concurrencyLimit" and idle: "inflight s = []"
  shows "results s = map (slot processor) items"
    and "resolved s = Some (filterBoolean (map (slot processor) items))"
proof -
  have "0 < min concurrencyLimit (length items)"
    using ne lim by simp
  then have all: "length items \<le> nextIndex s"
    using fl idle by (auto simp: pool_full_def)
  show r: "results s = map (slot processor) items"
  proof (rule nth_equalityI)
    show "length (results s) = length (map (slot processor) items)"
      using inv by (simp add: pool_inv_def)
  next
    fix i assume "i < length (results s)"
    then have i: "i < length items" using inv by (simp add: pool_inv_def)
    then have "results s ! i = slot processor (items ! i)"
      using inv all idle by (simp add: pool_inv_def)
    then show "results s ! i = map (slot processor) items ! i"
      using i by simp
  qed
  show "resolved s = Some (filterBoolean (map (slot processor) items))"
    using dn all idle by (simp add: pool_done_def r)
qed

lemma processWithPool_final:
  assumes ne: "items \<noteq> []" and lim: "0 < concurrencyLimit"
  shows "results (processWithPool items concurrencyLimit processor onProgress pick)
           = map (slot processor) items"
    and "resolved (processWithPool items concurrencyLimit processor onProgress pick)
           = Some (filterBoolean (map (slot processor) items))"
proof -
  let ?f = "processWithPool items concurrencyLimit processor onProgress pick"
  have "pool_ok items concurrencyLimit processor ?f \<and> pool_done items ?f"
    unfolding processWithPool_def
    by (rule pool_ok_drain) (simp add: pool_ok_start pool_done_start [OF ne lim])
  moreover have "inflight ?f = []"
    unfolding processWithPool_def by (rule inflight_drain)
  ultimately show "results ?f = map (slot processor) items"
    and "resolved ?f = Some (filterBoolean (map (slot processor) items))"
    using pool_final [of items processor ?f concurrencyLimit] ne lim
    by (simp_all add: pool_ok_def)
qed

lemma processWithPool_idle:
  assumes "items = [] \<or> concurrencyLimit = 0"
  shows "processWithPool items concurrencyLimit processor onProgress pick
           = initState (length items)"
proof -
  have "start items concurrencyLimit = initState (length items)"
    using assms by (auto simp: start_def initialBatch_def)
  then show ?thesis
    by (simp add: processWithPool_def drain_idle initState_def)
qed

lemma resolved_processWithPool:
  "resolved (processWithPool items concurrencyLimit processor onProgress pick) =
     (if items = [] \<or> concurrencyLimit = 0 then None
      else Some (filterBoolean (map (slot processor) items)))"
proof (cases "items = [] \<or> concurrencyLimit = 0")
  case True
  then show ?thesis
    by (simp add: processWithPool_idle [OF True] initState_def)
next
  case False
  then show ?thesis
    by (simp add: processWithPool_final(2))
qed

subsection \<open>The collection the promise resolves with\<close>

lemma filterBoolean_simps:
  "filterBoolean [] = []"
  "filterBoolean (None # rs) = filterBoolean rs"
  "filterBoolean (Some v # rs) = (if Boolean v then v # filterBoolean rs else filterBoolean rs)"
  by (simp_all add: filterBoolean_def map_filter_simps)

lemma filterBoolean_append: "filterBoolean (rs @ rs') = filterBoolean rs @ filterBoolean rs'"
  by (simp add: filterBoolean_def map_filter_def)

lemma list_all_Boolean_filterBoolean: "list_all Boolean (filterBoolean rs)"
  by (simp add: filterBoolean_def list_all_iff)

lemma filterBoolean_truthy:
  "list_all (truthyResult processor) xs \<Longrightarrow>
   map Fulfilled (filterBoolean (map (slot processor) xs)) = map processor xs"
proof (induction xs)
  case Nil
  then show ?case by (simp add: filterBoolean_simps)
next
  case (Cons x xs)
  then show ?case
    by (cases "processor x") (simp_all add: filterBoolean_simps slot_def truthyResult_def)
qed

lemma filterBoolean_cong:
  "map (\<lambda>x. if truthyResult p x then slot p x else None) xs
     = map (\<lambda>x. if truthyResult q x then slot q x else None) xs \<Longrightarrow>
   filterBoolean (map (slot p) xs) = filterBoolean (map (slot q) xs)"
proof (induction xs)
  case Nil
  then show ?case by simp
next
  case (Cons x xs)
  then show ?case
    by (cases "p x"; cases "q x")
       (auto simp: filterBoolean_simps slot_def truthyResult_def split: if_splits)
qed

lemma list_all_skip:
  "k < length xs \<Longrightarrow> \<forall>j < length xs. j \<noteq> k \<longrightarrow> P (xs ! j) \<Longrightarrow>
   list_all P (take k xs @ drop (Suc k) xs)"
  by (auto simp: list_all_length nth_append min_def)

subsection \<open>A run is a sequence of completions\<close>

lemma drain_settleAll:
  "\<exists>ks. drain items processor onProgress pick s = settleAll items processor onProgress ks s"
proof (induction items processor onProgress pick s rule: drain.induct)
  case (1 items processor onProgress pick s)
  show ?case
  proof (cases "inflight s = []")
    case True
    have eq: "drain items processor onProgress pick s = settleAll items processor onProgress [] s"
      using True by (simp add: drain.simps [of items processor onProgress pick s])
    show ?thesis by (rule exI [of _ "[]"]) (rule eq)
  next
    case False
    let ?i = "inflight s ! (pick s mod length (inflight s))"
    obtain ks where ks: "drain items processor onProgress pick (settle items processor onProgress ?i s)
        = settleAll items processor onProgress ks (settle items processor onProgress ?i s)"
      using "1.IH" [OF False] by blast
    have "drain items processor onProgress pick s
        = drain items processor onProgress pick (settle items processor onProgress ?i s)"
      using False by (simp add: drain.simps [of items processor onProgress pick s])
    also have "\<dots> = settleAll items processor onProgress (?i # ks) s"
      using ks by simp
    finally have eq: "drain items processor onProgress pick s
        = settleAll items processor onProgress (?i # ks) s" .
    show ?thesis by (rule exI [of _ "?i # ks"]) (rule eq)
  qed
qed

section \<open>The scheduler claims\<close>

text \<open>
  Claim C1 (order preservation), as the code has it. The claim says that the resolved
  sequence has one entry per item, the i-th for the i-th item. The code resolves with
  \<open>results.filter(Boolean)\<close>: for a non-empty list of items and a limit of at least one slot,
  the resolved sequence is, in input order, the truthy results of the items whose worker
  fulfilled, whatever the order \<open>pick\<close> in which the workers complete; it has one entry per
  item, the i-th being the result of the i-th item, when every worker fulfils with a truthy
  value.
\<close>

theorem processWithPool_order:
  assumes "items \<noteq> []" and "0 < concurrencyLimit"
  shows "resolved (processWithPool items concurrencyLimit processor onProgress pick)
           = Some (filterBoolean (map (slot processor) items)) \<and>
         resolved (processWithPool items concurrencyLimit processor onProgress pick)
           = resolved (processWithPool items concurrencyLimit processor onProgress pick') \<and>
         (list_all (truthyResult processor) items \<longrightarrow>
            (\<exists>rs. resolved (processWithPool items concurrencyLimit processor onProgress pick)
                    = Some rs \<and>
                  map Fulfilled rs = map processor items))"
  using assms by (simp add: resolved_processWithPool filterBoolean_truthy)

theorem processWithPool_order_witness:
  "resolved (processWithPool [1, 2, 3] 2 numberWorker True lifo)
     = Some [JNumber 1, JNumber 2, JNumber 3] \<and>
   resolved (processWithPool [1, 2, 3] 2 numberWorker True lifo)
     = resolved (processWithPool [1, 2, 3] 2 numberWorker True fifo) \<and>
   (\<exists>rs. resolved (processWithPool [1, 2, 3] 2 numberWorker True lifo) = Some rs \<and>
         map Fulfilled rs = map numberWorker [1, 2, 3])"
proof -
  have ne: "[1, 2, 3 :: int] \<noteq> []" by simp
  have lim: "0 < (2 :: nat)" by simp
  have tr: "list_all (truthyResult numberWorker) [1, 2, 3]"
    by (simp add: truthyResult_def numberWorker_def)
  note w = processWithPool_order [OF ne lim, of numberWorker True lifo fifo]
  have "filterBoolean (map (slot numberWorker) [1, 2, 3]) = [JNumber 1, JNumber 2, JNumber 3]"
    by (simp add: filterBoolean_simps slot_def numberWorker_def)
  then have a: "resolved (processWithPool [1, 2, 3] 2 numberWorker True lifo)
     = Some [JNumber 1, JNumber 2, JNumber 3]"
    using w [THEN conjunct1] by simp
  show ?thesis
    using a w [THEN conjunct2, THEN conjunct1] w [THEN conjunct2, THEN conjunct2, rule_format, OF tr]
    by blast
qed

text \<open>
  The claim C1 as stated fails when a worker fails: of three items whose second worker
  throws, two results are resolved, and the entry at index 1 is the result of the item at
  index 2.
\<close>

theorem processWithPool_order_counterexample:
  "resolved (processWithPool [1, 2, 3] 50 failsOnTwo True fifo) = Some [JNumber 1, JNumber 3] \<and>
   failsOnTwo 3 = Fulfilled (JNumber 3) \<and>
   length [JNumber 1, JNumber 3] \<noteq> length [1, 2, 3 :: int] \<and>
   [JNumber 1, JNumber 3] ! 1 = JNumber 3"
  by code_simp

text \<open>
  Claim C2 (fault isolation): when the worker of the item at index \<open>k\<close> rejects, the run
  still ends with the promise resolved; slot \<open>k\<close> of \<open>results\<close> stays a hole, the slot of
  every item whose worker fulfils holds that worker's value, and the promise resolves with
  the truthy values of the filled slots. When the workers of all other items fulfil with
  truthy values, the resolved sequence is exactly their results, in input order, with
  nothing for item \<open>k\<close>.
\<close>

theorem processWithPool_fault_isolation:
  fixes items :: "'a list" and concurrencyLimit :: nat and processor :: "'a \<Rightarrow> outcome"
    and onProgress :: bool and pick :: "pool_state \<Rightarrow> nat"
  defines "final \<equiv> processWithPool items concurrencyLimit processor onProgress pick"
  assumes "k < length items" and "processor (items ! k) = Rejected message"
    and "0 < concurrencyLimit"
  shows "length (results final) = length items \<and>
         results final ! k = None \<and>
         (\<forall>j < length items. \<forall>v. processor (items ! j) = Fulfilled v \<longrightarrow>
            results final ! j = Some v) \<and>
         resolved final = Some (filterBoolean (results final)) \<and>
         ((\<forall>j < length items. j \<noteq> k \<longrightarrow> truthyResult processor (items ! j)) \<longrightarrow>
            (\<exists>rs. resolved final = Some rs \<and>
                  map Fulfilled rs = map processor (take k items @ drop (Suc k) items)))"
proof -
  have ne: "items \<noteq> []" using assms(2) by auto
  have r: "results final = map (slot processor) items"
    and rs: "resolved final = Some (filterBoolean (map (slot processor) items))"
    unfolding final_def using processWithPool_final [OF ne assms(4)] by simp_all
  have split_items: "items = take k items @ items ! k # drop (Suc k) items"
    using assms(2) by (rule id_take_nth_drop)
  have hole: "filterBoolean (map (slot processor) items)
      = filterBoolean (map (slot processor) (take k items @ drop (Suc k) items))"
  proof -
    have "filterBoolean (map (slot processor) (take k items @ items ! k # drop (Suc k) items))
      = filterBoolean (map (slot processor) (take k items @ drop (Suc k) items))"
      using assms(3) by (simp add: filterBoolean_append filterBoolean_simps slot_def)
    then show ?thesis using split_items by simp
  qed
  have others: "list_all (truthyResult processor) (take k items @ drop (Suc k) items)"
    if "\<forall>j < length items. j \<noteq> k \<longrightarrow> truthyResult processor (items ! j)"
    using assms(2) that by (rule list_all_skip)
  have c1: "length (results final) = length items" by (simp add: r)
  have c2: "results final ! k = None"
    using assms(2,3) by (simp add: r slot_def)
  have c3: "\<forall>j < length items. \<forall>v. processor (items ! j) = Fulfilled v \<longrightarrow>
            results final ! j = Some v"
    by (simp add: r slot_def)
  have c4: "resolved final = Some (filterBoolean (results final))"
    by (simp add: r rs)
  have c5: "(\<forall>j < length items. j \<noteq> k \<longrightarrow> truthyResult processor (items ! j)) \<longrightarrow>
            (\<exists>rs. resolved final = Some rs \<and>
                  map Fulfilled rs = map processor (take k items @ drop (Suc k) items))"
  proof
    assume "\<forall>j < length items. j \<noteq> k \<longrightarrow> truthyResult processor (items ! j)"
    then have "map Fulfilled (filterBoolean (map (slot processor) (take k items @ drop (Suc k) items)))
        = map processor (take k items @ drop (Suc k) items)"
      by (intro filterBoolean_truthy others)
    then show "\<exists>rs. resolved final = Some rs \<and>
                  map Fulfilled rs = map processor (take k items @ drop (Suc k) items)"
      unfolding rs hole by blast
  qed
  show ?thesis
    by (intro conjI c1 c2 c3 c4 c5)
qed

theorem processWithPool_fault_isolation_witness:
  "length (results (processWithPool [1, 2, 3] 2 failsOnTwo True lifo)) = 3 \<and>
   results (processWithPool [1, 2, 3] 2 failsOnTwo True lifo) ! 1 = None \<and>
   results (processWithPool [1, 2, 3] 2 failsOnTwo True lifo) ! 0 = Some (JNumber 1) \<and>
   results (processWithPool [1, 2, 3] 2 failsOnTwo True lifo) ! 2 = Some (JNumber 3) \<and>
   (\<exists>rs. resolved (processWithPool [1, 2, 3] 2 failsOnTwo True lifo) = Some rs \<and>
         map Fulfilled rs = [Fulfilled (JNumber 1), Fulfilled (JNumber 3)])"
proof -
  have k: "1 < length [1, 2, 3 :: int]" by simp
  have rej: "failsOnTwo ([1, 2, 3] ! 1) = Rejected ''boom''"
    by (simp add: failsOnTwo_def)
  have lim: "0 < (2 :: nat)" by simp
  note w = processWithPool_fault_isolation [where items = "[1, 2, 3 :: int]" and k = 1
      and processor = failsOnTwo and message = "''boom''" and concurrencyLimit = 2
      and onProgress = True and pick = lifo, OF k rej lim]
  have others: "\<forall>j < length [1, 2, 3 :: int]. j \<noteq> 1 \<longrightarrow> truthyResult failsOnTwo ([1, 2, 3] ! j)"
    by (simp add: truthyResult_def failsOnTwo_def less_Suc_eq nth_Cons' numeral_3_eq_3)
  have a: "length (results (processWithPool [1, 2, 3] 2 failsOnTwo True lifo)) = 3"
    using w [THEN conjunct1] by simp
  have b: "results (processWithPool [1, 2, 3] 2 failsOnTwo True lifo) ! 1 = None"
    using w [THEN conjunct2, THEN conjunct1] .
  note sib = w [THEN conjunct2, THEN conjunct2, THEN conjunct1, rule_format]
  have c: "results (processWithPool [1, 2, 3] 2 failsOnTwo True lifo) ! 0 = Some (JNumber 1)"
    by (rule sib) (simp_all add: failsOnTwo_def)
  have d: "results (processWithPool [1, 2, 3] 2 failsOnTwo True lifo) ! 2 = Some (JNumber 3)"
    by (rule sib) (simp_all add: failsOnTwo_def)
  have e: "\<exists>rs. resolved (processWithPool [1, 2, 3] 2 failsOnTwo True lifo) = Some rs \<and>
         map Fulfilled rs = map failsOnTwo (take 1 [1, 2, 3] @ drop (Suc 1) [1, 2, 3])"
    using w [THEN conjunct2, THEN conjunct2, THEN conjunct2, THEN conjunct2, THEN mp, OF others] .
  have f: "map failsOnTwo (take 1 [1, 2, 3] @ drop (Suc 1) [1, 2, 3])
      = [Fulfilled (JNumber 1), Fulfilled (JNumber 3)]"
    by (simp add: failsOnTwo_def)
  show ?thesis
    using a b c d e unfolding f by blast
qed

text \<open>
  Claim C3 (termination) at the empty list: \<open>initialBatch\<close> is \<open>0\<close>, \<open>processNext\<close> is never
  called, and \<open>processNext\<close> is the only caller of \<open>resolve\<close>. No worker is in flight and
  the promise stays pending: the call never resolves. (For a non-empty list and a limit of
  at least one slot the promise does resolve: lemma \<open>resolved_processWithPool\<close>.)
\<close>

theorem processWithPool_empty_pending:
  "resolved (processWithPool [] concurrencyLimit processor onProgress pick) = None \<and>
   inflight (processWithPool [] concurrencyLimit processor onProgress pick) = [] \<and>
   runningCount (processWithPool [] concurrencyLimit processor onProgress pick) = 0"
  by (simp add: processWithPool_idle initState_def)

text \<open>
  Claim C4 (bounded concurrency): in every state \<open>s\<close> a run reaches after any sequence
  \<open>ks\<close> of completions, \<open>runningCount\<close> is the number of workers in flight and is at most
  \<open>min concurrencyLimit |items|\<close>; while items remain to be started it is exactly that
  minimum, since the completion of a worker dispatches the next item in the same step.
  During the initial loop the count after \<open>k\<close> calls is \<open>k\<close>. Every state of
  \<open>processWithPool\<close> is such a state, and the limit the program passes is 50.
\<close>

theorem processWithPool_bounded:
  fixes items :: "'a list" and concurrencyLimit :: nat and processor :: "'a \<Rightarrow> outcome"
    and onProgress :: bool and ks :: "nat list"
  defines "s \<equiv> settleAll items processor onProgress ks (start items concurrencyLimit)"
  shows "runningCount s = int (length (inflight s)) \<and>
         length (inflight s) \<le> min concurrencyLimit (length items) \<and>
         (nextIndex s < length items \<longrightarrow>
            length (inflight s) = min concurrencyLimit (length items)) \<and>
         (i \<in> set (inflight s) \<and> nextIndex s < length items \<longrightarrow>
            inflight (settle items processor onProgress i s)
              = remove1 i (inflight s) @ [nextIndex s]) \<and>
         (k \<le> initialBatch concurrencyLimit items \<longrightarrow>
            runningCount ((processNext items ^^ k) (initState (length items))) = int k \<and>
            inflight ((processNext items ^^ k) (initState (length items))) = [0..<k]) \<and>
         (\<exists>js. processWithPool items concurrencyLimit processor onProgress pick
                 = settleAll items processor onProgress js (start items concurrencyLimit)) \<and>
         initialBatch concurrencyLimit items = min concurrencyLimit (length items) \<and>
         CONCURRENCY_LIMIT = 50"
proof -
  have ok: "pool_ok items concurrencyLimit processor s"
    unfolding s_def by (rule pool_ok_settleAll) (rule pool_ok_start)
  have a: "runningCount s = int (length (inflight s))"
    using ok by (simp add: pool_ok_def pool_inv_def)
  have b: "length (inflight s) \<le> min concurrencyLimit (length items)"
    and c: "nextIndex s < length items \<longrightarrow>
              length (inflight s) = min concurrencyLimit (length items)"
    using ok by (simp_all add: pool_ok_def pool_full_def)
  have d: "i \<in> set (inflight s) \<and> nextIndex s < length items \<longrightarrow>
            inflight (settle items processor onProgress i s)
              = remove1 i (inflight s) @ [nextIndex s]"
    by (simp add: settle_def processNext_def complete_fields)
  have e: "k \<le> initialBatch concurrencyLimit items \<longrightarrow>
            runningCount ((processNext items ^^ k) (initState (length items))) = int k \<and>
            inflight ((processNext items ^^ k) (initState (length items))) = [0..<k]"
    by (simp add: ramp_state initialBatch_def)
  have f: "\<exists>js. processWithPool items concurrencyLimit processor onProgress pick
                 = settleAll items processor onProgress js (start items concurrencyLimit)"
    unfolding processWithPool_def by (rule drain_settleAll)
  have g: "initialBatch concurrencyLimit items = min concurrencyLimit (length items)"
    by (simp add: initialBatch_def)
  have h: "CONCURRENCY_LIMIT = 50"
    by (simp add: CONCURRENCY_LIMIT_def)
  show ?thesis
    by (intro conjI a b c d e f g h)
qed

theorem processWithPool_bounded_witness:
  "nextIndex (settleAll [1, 2, 3, 4] numberWorker True [0] (start [1, 2, 3, 4 :: int] 2)) = 3 \<and>
   inflight (settleAll [1, 2, 3, 4] numberWorker True [0] (start [1, 2, 3, 4 :: int] 2)) = [1, 2] \<and>
   runningCount (settleAll [1, 2, 3, 4] numberWorker True [0] (start [1, 2, 3, 4 :: int] 2)) = 2 \<and>
   length (inflight (settleAll [1, 2, 3, 4] numberWorker True [0] (start [1, 2, 3, 4 :: int] 2)))
     = min 2 (length [1, 2, 3, 4 :: int]) \<and>
   inflight (settle [1, 2, 3, 4] numberWorker True 1
               (settleAll [1, 2, 3, 4] numberWorker True [0] (start [1, 2, 3, 4 :: int] 2))) = [2, 3] \<and>
   runningCount ((processNext [1, 2, 3, 4 :: int] ^^ 2) (initState (length [1, 2, 3, 4 :: int]))) = 2"
proof -
  let ?s = "settleAll [1, 2, 3, 4 :: int] numberWorker True [0] (start [1, 2, 3, 4 :: int] 2)"
  note w = processWithPool_bounded [where items = "[1, 2, 3, 4 :: int]" and concurrencyLimit = 2
      and processor = numberWorker and onProgress = True and ks = "[0]" and i = 1 and k = 2
      and pick = fifo]
  have nx: "nextIndex ?s = 3" by code_simp
  have fl: "inflight ?s = [1, 2]" by code_simp
  have more: "nextIndex ?s < length [1, 2, 3, 4 :: int]"
    using nx by simp
  have mem: "1 \<in> set (inflight ?s) \<and> nextIndex ?s < length [1, 2, 3, 4 :: int]"
    using nx fl by simp
  have batch: "2 \<le> initialBatch 2 [1, 2, 3, 4 :: int]"
    by (simp add: initialBatch_def)
  have a: "runningCount ?s = int (length (inflight ?s))"
    using w [THEN conjunct1] .
  have b: "length (inflight ?s) = min 2 (length [1, 2, 3, 4 :: int])"
    using w [THEN conjunct2, THEN conjunct2, THEN conjunct1, rule_format, OF more] .
  have c: "inflight (settle [1, 2, 3, 4] numberWorker True 1 ?s) = remove1 1 (inflight ?s) @ [nextIndex ?s]"
    using w [THEN conjunct2, THEN conjunct2, THEN conjunct2, THEN conjunct1, rule_format, OF mem] .
  have d: "runningCount ((processNext [1, 2, 3, 4 :: int] ^^ 2) (initState (length [1, 2, 3, 4 :: int]))) = int 2"
    using w [THEN conjunct2, THEN conjunct2, THEN conjunct2, THEN conjunct2, THEN conjunct1,
             rule_format, OF batch, THEN conjunct1] .
  have a': "runningCount ?s = 2" using a unfolding fl by simp
  have c': "inflight (settle [1, 2, 3, 4] numberWorker True 1 ?s) = [2, 3]"
    using c unfolding fl nx by simp
  have d': "runningCount ((processNext [1, 2, 3, 4 :: int] ^^ 2) (initState (length [1, 2, 3, 4 :: int]))) = 2"
    using d by simp
  show ?thesis
    by (intro conjI nx fl a' b c' d')
qed

text \<open>
  Claim C10 (falsy results): \<open>0\<close>, the empty string, \<open>false\<close> and \<open>null\<close> are falsy; every
  value of the resolved sequence is truthy; a worker that fulfils with a falsy value for
  an item can be replaced by one that rejects for that item without changing what the
  promise resolves with, whatever the completion orders; and the resolved sequence is the
  one of the items without that item.
\<close>

theorem processWithPool_falsy_omitted:
  "Boolean (JNumber 0) = False \<and> Boolean (JString []) = False \<and>
   Boolean (JBoolean False) = False \<and> Boolean Null = False \<and>
   (\<forall>rs. resolved (processWithPool items concurrencyLimit processor onProgress pick) = Some rs
      \<longrightarrow> list_all Boolean rs) \<and>
   (processor x = Fulfilled v \<and> \<not> Boolean v \<longrightarrow>
      resolved (processWithPool items concurrencyLimit processor onProgress pick)
        = resolved (processWithPool items concurrencyLimit
                      (processor(x := Rejected message)) onProgress pick')) \<and>
   (i < length items \<and> processor (items ! i) = Fulfilled v \<and> \<not> Boolean v \<and>
    0 < concurrencyLimit \<longrightarrow>
      resolved (processWithPool items concurrencyLimit processor onProgress pick)
        = Some (filterBoolean (map (slot processor) (take i items @ drop (Suc i) items))))"
proof -
  have a: "\<forall>rs. resolved (processWithPool items concurrencyLimit processor onProgress pick) = Some rs
      \<longrightarrow> list_all Boolean rs"
    by (auto simp: resolved_processWithPool list_all_Boolean_filterBoolean split: if_splits)
  have b: "resolved (processWithPool items concurrencyLimit processor onProgress pick)
        = resolved (processWithPool items concurrencyLimit
                      (processor(x := Rejected message)) onProgress pick')"
    if "processor x = Fulfilled v" and "\<not> Boolean v"
  proof -
    have "filterBoolean (map (slot processor) items)
        = filterBoolean (map (slot (processor(x := Rejected message))) items)"
      by (rule filterBoolean_cong) (use that in \<open>simp add: truthyResult_def slot_def\<close>)
    then show ?thesis by (simp add: resolved_processWithPool)
  qed
  have c: "resolved (processWithPool items concurrencyLimit processor onProgress pick)
        = Some (filterBoolean (map (slot processor) (take i items @ drop (Suc i) items)))"
    if "i < length items" and "processor (items ! i) = Fulfilled v" and "\<not> Boolean v"
      and "0 < concurrencyLimit"
  proof -
    have ne: "items \<noteq> []" using that(1) by auto
    have "filterBoolean (map (slot processor) (take i items @ items ! i # drop (Suc i) items))
      = filterBoolean (map (slot processor) (take i items @ drop (Suc i) items))"
      using that(2,3) by (simp add: filterBoolean_append filterBoolean_simps slot_def)
    then have "filterBoolean (map (slot processor) items)
      = filterBoolean (map (slot processor) (take i items @ drop (Suc i) items))"
      using id_take_nth_drop [OF that(1)] by simp
    then show ?thesis using ne that(4) by (simp add: resolved_processWithPool)
  qed
  show ?thesis using a b c by simp
qed

theorem processWithPool_falsy_omitted_witness:
  "numberWorker 0 = Fulfilled (JNumber 0) \<and> \<not> Boolean (JNumber 0) \<and>
   resolved (processWithPool [0, 5] 2 numberWorker True lifo)
     = resolved (processWithPool [0, 5] 2 (numberWorker(0 := Rejected ''boom'')) True fifo) \<and>
   resolved (processWithPool [0, 5] 2 numberWorker True lifo) = Some [JNumber 5] \<and>
   list_all Boolean [JNumber 5]"
proof -
  note w = processWithPool_falsy_omitted [where items = "[0, 5 :: int]" and concurrencyLimit = 2
      and processor = numberWorker and onProgress = True and pick = lifo and pick' = fifo
      and x = 0 and v = "JNumber 0" and i = 0 and message = "''boom''"]
  have zero: "numberWorker 0 = Fulfilled (JNumber 0)" by (simp add: numberWorker_def)
  have falsy: "\<not> Boolean (JNumber 0)" by simp
  have h1: "numberWorker 0 = Fulfilled (JNumber 0) \<and> \<not> Boolean (JNumber 0)"
    using zero falsy by simp
  have h2: "0 < length [0, 5 :: int] \<and> numberWorker ([0, 5] ! 0) = Fulfilled (JNumber 0) \<and>
      \<not> Boolean (JNumber 0) \<and> 0 < (2 :: nat)"
    using zero by simp
  note rest = w [THEN conjunct2, THEN conjunct2, THEN conjunct2, THEN conjunct2]
  have a: "resolved (processWithPool [0, 5] 2 numberWorker True lifo)
     = resolved (processWithPool [0, 5] 2 (numberWorker(0 := Rejected ''boom'')) True fifo)"
    using rest [THEN conjunct2, THEN conjunct1, rule_format, OF h1] .
  have "resolved (processWithPool [0, 5] 2 numberWorker True lifo)
     = Some (filterBoolean (map (slot numberWorker) (take 0 [0, 5] @ drop (Suc 0) [0, 5])))"
    using rest [THEN conjunct2, THEN conjunct2, rule_format, OF h2] .
  then have b: "resolved (processWithPool [0, 5] 2 numberWorker True lifo) = Some [JNumber 5]"
    by (simp add: filterBoolean_simps slot_def numberWorker_def)
  have c: "list_all Boolean [JNumber 5]"
    using rest [THEN conjunct1, rule_format, OF b] .
  show ?thesis
    by (intro conjI zero falsy a b c)
qed

section \<open>Properties of the string functions\<close>

lemma startsWith_char: "startsWith s [c] \<longleftrightarrow> s \<noteq> [] \<and> hd s = c"
  by (cases s) (auto simp: startsWith_def)

lemma endsWith_char: "endsWith s [c] \<longleftrightarrow> s \<noteq> [] \<and> last s = c"
  by (cases s rule: rev_cases) (auto simp: endsWith_def)

lemma drop_one: "drop 1 xs = tl xs"
  by (simp add: drop_Suc)

lemma split_nonempty: "split s sep \<noteq> []"
  by (induction s) (auto split: list.splits)

lemma split_single: "sep \<notin> set s \<Longrightarrow> split s sep = [s]"
  by (induction s) auto

lemma split_append: "split (a @ sep # b) sep = split a sep @ split b sep"
proof (induction a)
  case Nil
  show ?case using split_nonempty [of b sep] by (simp split: list.splits)
next
  case (Cons c a)
  show ?case
    using Cons.IH split_nonempty [of a sep] split_nonempty [of "a @ sep # b" sep]
    by (cases "split a sep") (auto split: list.splits)
qed

section \<open>The ignore-file translation\<close>

lemma foldl_gitignoreLine:
  "foldl gitignoreLine acc ls = acc @ foldl gitignoreLine [] ls"
proof (induction ls arbitrary: acc rule: rev_induct)
  case Nil
  show ?case by simp
next
  case (snoc l ls)
  show ?case
    using snoc.IH [of acc]
    by (simp add: gitignoreLine_def Let_def)
qed

lemma gitignoreLine_skip:
  "trim l = [] \<or> hd (trim l) = hash \<or> hd (trim l) = bang \<Longrightarrow>
   gitignoreLine acc l = acc"
  by (auto simp: gitignoreLine_def Let_def startsWith_char)

lemma gitignoreLine_directory:
  assumes "trim l \<noteq> []" "hd (trim l) \<noteq> hash" "hd (trim l) \<noteq> bang"
    and "last (trim l) = slash"
  shows "gitignoreLine acc l =
     acc @ [if hd (butlast (trim l) @ ascii ''/**'') = slash
            then tl (butlast (trim l) @ ascii ''/**'') else butlast (trim l) @ ascii ''/**'']"
  using assms
  unfolding gitignoreLine_def Let_def drop_one
  by (simp add: startsWith_char endsWith_char includesChar_def ascii_def)

lemma gitignoreLine_bare:
  assumes "trim l \<noteq> []" "hd (trim l) \<noteq> hash" "hd (trim l) \<noteq> bang"
    and "slash \<notin> set (trim l)"
  shows "gitignoreLine acc l = acc @ [ascii ''**/'' @ trim l]"
proof -
  have "last (trim l) \<in> set (trim l)" and "hd (trim l) \<in> set (trim l)"
    using assms(1) by simp_all
  then have "last (trim l) \<noteq> slash" and "hd (trim l) \<noteq> slash"
    using assms(4) by metis+
  then show ?thesis
    using assms
    by (simp add: gitignoreLine_def Let_def startsWith_char endsWith_char includesChar_def
          ascii_def)
qed

lemma gitignoreLine_path:
  assumes "trim l \<noteq> []" "hd (trim l) \<noteq> hash" "hd (trim l) \<noteq> bang"
    and "last (trim l) \<noteq> slash" and "slash \<in> set (trim l)"
  shows "gitignoreLine acc l = acc @ [if hd (trim l) = slash then tl (trim l) else trim l]"
  using assms
  unfolding gitignoreLine_def Let_def drop_one
  by (simp add: startsWith_char endsWith_char includesChar_def)

text \<open>
  Claim C5 (ignore rules to patterns): the patterns of a content are those of its lines, in
  the order of the lines. For one line, with \<open>rule\<close> the line without the white space
  around it: a blank rule and a rule starting with \<open>#\<close> or \<open>!\<close> give no pattern; a rule
  ending in \<open>/\<close> gives the rule without that slash followed by \<open>/**\<close>; a rule without any
  \<open>/\<close> gives \<open>**/\<close> followed by the rule; any other rule gives itself; and in each case
  one leading \<open>/\<close> of the pattern is dropped.
\<close>

theorem parseGitignore_translation:
  fixes line :: js_string
  defines "rule \<equiv> trim line"
  assumes "lineFeed \<notin> set line"
  shows
    "parseGitignore (Content (c1 @ lineFeed # c2))
       = parseGitignore (Content c1) @ parseGitignore (Content c2) \<and>
     (rule = [] \<or> hd rule = hash \<or> hd rule = bang \<longrightarrow>
        parseGitignore (Content line) = []) \<and>
     (rule \<noteq> [] \<and> hd rule \<noteq> hash \<and> hd rule \<noteq> bang \<and> last rule = slash \<longrightarrow>
        parseGitignore (Content line) =
          [if hd (butlast rule @ ascii ''/**'') = slash
           then tl (butlast rule @ ascii ''/**'') else butlast rule @ ascii ''/**'']) \<and>
     (rule \<noteq> [] \<and> hd rule \<noteq> hash \<and> hd rule \<noteq> bang \<and> slash \<notin> set rule \<longrightarrow>
        parseGitignore (Content line) = [ascii ''**/'' @ rule]) \<and>
     (rule \<noteq> [] \<and> hd rule \<noteq> hash \<and> hd rule \<noteq> bang \<and> last rule \<noteq> slash \<and>
      slash \<in> set rule \<longrightarrow>
        parseGitignore (Content line) = [if hd rule = slash then tl rule else rule])"
proof -
  have one: "parseGitignore (Content line) = gitignoreLine [] line"
    using assms(2) by (simp add: parseGitignore_def split_single)
  have a: "parseGitignore (Content (c1 @ lineFeed # c2))
       = parseGitignore (Content c1) @ parseGitignore (Content c2)"
    by (simp add: parseGitignore_def split_append
          foldl_gitignoreLine [of "foldl gitignoreLine [] (split c1 lineFeed)"])
  have b: "rule = [] \<or> hd rule = hash \<or> hd rule = bang \<longrightarrow>
        parseGitignore (Content line) = []"
    unfolding one rule_def using gitignoreLine_skip [of line "[]"] by blast
  have c: "rule \<noteq> [] \<and> hd rule \<noteq> hash \<and> hd rule \<noteq> bang \<and> last rule = slash \<longrightarrow>
        parseGitignore (Content line) =
          [if hd (butlast rule @ ascii ''/**'') = slash
           then tl (butlast rule @ ascii ''/**'') else butlast rule @ ascii ''/**'']"
    unfolding one rule_def using gitignoreLine_directory [of line "[]"] by simp
  have d: "rule \<noteq> [] \<and> hd rule \<noteq> hash \<and> hd rule \<noteq> bang \<and> slash \<notin> set rule \<longrightarrow>
        parseGitignore (Content line) = [ascii ''**/'' @ rule]"
    unfolding one rule_def using gitignoreLine_bare [of line "[]"] by simp
  have e: "rule \<noteq> [] \<and> hd rule \<noteq> hash \<and> hd rule \<noteq> bang \<and> last rule \<noteq> slash \<and>
      slash \<in> set rule \<longrightarrow>
        parseGitignore (Content line) = [if hd rule = slash then tl rule else rule]"
    unfolding one rule_def using gitignoreLine_path [of line "[]"] by simp
  show ?thesis
    by (intro conjI a b c d e)
qed

theorem parseGitignore_translation_witness:
  "parseGitignore (Content (ascii ''build/'' @ lineFeed # ascii ''*.log''))
     = [ascii ''build/**'', ascii ''**/*.log''] \<and>
   parseGitignore (Content (ascii '' !keep.log'')) = [] \<and>
   parseGitignore (Content (ascii ''/docs/api/'')) = [ascii ''docs/api/**''] \<and>
   parseGitignore (Content (ascii ''/src/gen.ts'')) = [ascii ''src/gen.ts''] \<and>
   parseGitignore (Content (noBreakSpace # ascii ''foo'')) = [ascii ''**/foo''] \<and>
   parseGitignore (Content [noBreakSpace]) = []"
proof -
  have t: "trim (ascii ''build/'') = ascii ''build/''" "trim (ascii ''*.log'') = ascii ''*.log''"
    "trim (ascii '' !keep.log'') = ascii ''!keep.log''"
    "trim (ascii ''/docs/api/'') = ascii ''/docs/api/''"
    "trim (ascii ''/src/gen.ts'') = ascii ''/src/gen.ts''"
    "trim (noBreakSpace # ascii ''foo'') = ascii ''foo''"
    "trim [noBreakSpace] = []"
    by (simp_all add: trim_def isWhitespace_def ascii_def)
  have "parseGitignore (Content (ascii ''build/'' @ lineFeed # ascii ''*.log''))
      = parseGitignore (Content (ascii ''build/'')) @ parseGitignore (Content (ascii ''*.log''))"
    using parseGitignore_translation [where line = "ascii ''build/''" and ?c1.0 = "ascii ''build/''"
        and ?c2.0 = "ascii ''*.log''"]
    by (simp add: ascii_def)
  moreover have "parseGitignore (Content (ascii ''build/'')) = [ascii ''build/**'']"
    using parseGitignore_translation [where line = "ascii ''build/''"]
    unfolding t by (simp add: ascii_def)
  moreover have "parseGitignore (Content (ascii ''*.log'')) = [ascii ''**/*.log'']"
    using parseGitignore_translation [where line = "ascii ''*.log''"]
    unfolding t by (simp add: ascii_def)
  moreover have "parseGitignore (Content (ascii '' !keep.log'')) = []"
    using parseGitignore_translation [where line = "ascii '' !keep.log''"]
    unfolding t by (simp add: ascii_def)
  moreover have "parseGitignore (Content (ascii ''/docs/api/'')) = [ascii ''docs/api/**'']"
    using parseGitignore_translation [where line = "ascii ''/docs/api/''"]
    unfolding t by (simp add: ascii_def)
  moreover have "parseGitignore (Content (ascii ''/src/gen.ts'')) = [ascii ''src/gen.ts'']"
    using parseGitignore_translation [where line = "ascii ''/src/gen.ts''"]
    unfolding t by (simp add: ascii_def)
  moreover have "parseGitignore (Content (noBreakSpace # ascii ''foo'')) = [ascii ''**/foo'']"
    using parseGitignore_translation [where line = "noBreakSpace # ascii ''foo''"]
    unfolding t by (simp add: ascii_def)
  moreover have "parseGitignore (Content [noBreakSpace]) = []"
    using parseGitignore_translation [where line = "[noBreakSpace]"]
    unfolding t by simp
  ultimately show ?thesis by simp
qed

section \<open>The authorship extractor\<close>

lemma foldl_authorLine:
  "foldl authorLine acc ls = acc @ map (drop 7) (filter (\<lambda>line. startsWith line ''author '') ls)"
  by (induction ls arbitrary: acc) (simp_all add: authorLine_def)

text \<open>
  Claim C6 (filter mode), as the code has it. The claim says that a supplied filter gives
  the count. The code tests \<open>if (filterUser)\<close>: for every file and directory for which the
  oracle exits with an output, a non-empty filter gives the number of author lines equal
  to it, and no filter, or the empty string as filter, gives the whole sequence of authors
  in the order of the blame text. On the sequence A, B, A, A, C the filter A gives 3 and no
  filter gives the five authors.
\<close>

theorem getAuthorsFromFile_modes:
  fixes out :: string
  defines "authors \<equiv> map (drop 7) (filter (\<lambda>line. startsWith line ''author '') (split out newline))"
  assumes "gitBlame targetDir (relative targetDir filepath) = Exited code out"
  shows "(u \<noteq> [] \<longrightarrow> getAuthorsFromFile relative gitBlame filepath targetDir (Some u)
            = Count (length (filter (\<lambda>author. author = u) authors))) \<and>
         getAuthorsFromFile relative gitBlame filepath targetDir None = Authors authors \<and>
         getAuthorsFromFile relative gitBlame filepath targetDir (Some []) = Authors authors \<and>
         getAuthorsFromFile relative' (blamePrints (porcelain [''A'', ''B'', ''A'', ''A'', ''C'']))
             filepath' targetDir' (Some ''A'')
           = Count 3 \<and>
         getAuthorsFromFile relative' (blamePrints (porcelain [''A'', ''B'', ''A'', ''A'', ''C'']))
             filepath' targetDir' None
           = Authors [''A'', ''B'', ''A'', ''A'', ''C'']"
proof -
  have a: "u \<noteq> [] \<longrightarrow> getAuthorsFromFile relative gitBlame filepath targetDir (Some u)
            = Count (length (filter (\<lambda>author. author = u) authors))"
    using assms(2)
    by (simp add: getAuthorsFromFile_def truthyFilter_def foldl_authorLine authors_def)
  have b: "getAuthorsFromFile relative gitBlame filepath targetDir None = Authors authors"
    using assms(2)
    by (simp add: getAuthorsFromFile_def truthyFilter_def foldl_authorLine authors_def)
  have c: "getAuthorsFromFile relative gitBlame filepath targetDir (Some []) = Authors authors"
    using assms(2)
    by (simp add: getAuthorsFromFile_def truthyFilter_def foldl_authorLine authors_def)
  have sample: "foldl authorLine [] (split (porcelain [''A'', ''B'', ''A'', ''A'', ''C'']) newline)
      = [''A'', ''B'', ''A'', ''A'', ''C'']"
    by code_simp
  have d: "getAuthorsFromFile relative' (blamePrints (porcelain [''A'', ''B'', ''A'', ''A'', ''C'']))
             filepath' targetDir' (Some ''A'')
           = Count 3"
    by (simp add: getAuthorsFromFile_def blamePrints_def truthyFilter_def sample)
  have e: "getAuthorsFromFile relative' (blamePrints (porcelain [''A'', ''B'', ''A'', ''A'', ''C'']))
             filepath' targetDir' None
           = Authors [''A'', ''B'', ''A'', ''A'', ''C'']"
    by (simp add: getAuthorsFromFile_def blamePrints_def truthyFilter_def sample)
  show ?thesis by (intro conjI a b c d e)
qed

theorem getAuthorsFromFile_modes_witness:
  "getAuthorsFromFile relativeBelow (blamePrints (''author Ann'' @ newline # ''author Bob''))
     ''/repo/src/a.ts'' ''/repo'' (Some ''Bob'') = Count 1 \<and>
   getAuthorsFromFile relativeBelow (blamePrints (''author Ann'' @ newline # ''author Bob''))
     ''/repo/src/a.ts'' ''/repo'' None = Authors [''Ann'', ''Bob'']"
proof -
  have run: "blamePrints (''author Ann'' @ newline # ''author Bob'') ''/repo''
      (relativeBelow ''/repo'' ''/repo/src/a.ts'')
      = Exited 0 (''author Ann'' @ newline # ''author Bob'')"
    by (simp add: blamePrints_def)
  have lines: "split (''author Ann'' @ newline # ''author Bob'') newline
      = [''author Ann'', ''author Bob'']"
    by simp
  note w = getAuthorsFromFile_modes [where gitBlame = "blamePrints (''author Ann'' @ newline # ''author Bob'')"
      and relative = relativeBelow and targetDir = "''/repo''" and filepath = "''/repo/src/a.ts''"
      and code = 0 and out = "''author Ann'' @ newline # ''author Bob''" and u = "''Bob''",
      OF run]
  have a: "getAuthorsFromFile relativeBelow (blamePrints (''author Ann'' @ newline # ''author Bob''))
     ''/repo/src/a.ts'' ''/repo'' (Some ''Bob'') = Count 1"
    using w [THEN conjunct1] unfolding lines by (simp add: startsWith_def)
  have b: "getAuthorsFromFile relativeBelow (blamePrints (''author Ann'' @ newline # ''author Bob''))
     ''/repo/src/a.ts'' ''/repo'' None = Authors [''Ann'', ''Bob'']"
    using w [THEN conjunct2, THEN conjunct1] unfolding lines by (simp add: startsWith_def)
  show ?thesis by (intro conjI a b)
qed

text \<open>
  The claim C6 as stated fails at the empty string: supplied as the filter, it gives the
  sequence of authors, not a count.
\<close>

theorem getAuthorsFromFile_modes_counterexample:
  "getAuthorsFromFile relativeBelow (blamePrints (porcelain [''A'', ''B'', ''A'', ''A'', ''C'']))
     ''/repo/src/a.ts'' ''/repo'' (Some '''')
     = Authors [''A'', ''B'', ''A'', ''A'', ''C'']"
  by code_simp

text \<open>
  Claim C7 (failure policy), as the code has it. When the \<open>try\<close> block throws, the result is
  \<open>0\<close> for a non-empty filter and the empty sequence for no filter or the empty string as
  filter; for every filter it is the result for a blame text without lines, whatever the
  exit code. The result type has no error: nothing propagates.
\<close>

theorem getAuthorsFromFile_failure:
  assumes "gitBlame targetDir (relative targetDir filepath) = Threw"
  shows "(u \<noteq> [] \<longrightarrow> getAuthorsFromFile relative gitBlame filepath targetDir (Some u) = Count 0) \<and>
         getAuthorsFromFile relative gitBlame filepath targetDir None = Authors [] \<and>
         getAuthorsFromFile relative gitBlame filepath targetDir (Some []) = Authors [] \<and>
         getAuthorsFromFile relative gitBlame filepath targetDir filterUser
           = getAuthorsFromFile relative (\<lambda>cwd path. Exited code []) filepath targetDir filterUser"
  using assms
  by (simp add: getAuthorsFromFile_def truthyFilter_def authorLine_def startsWith_def)

theorem getAuthorsFromFile_failure_witness:
  "getAuthorsFromFile relativeBelow blameThrows ''/repo/src/a.ts'' ''/repo'' (Some ''Ann'') = Count 0 \<and>
   getAuthorsFromFile relativeBelow blameThrows ''/repo/src/a.ts'' ''/repo'' None = Authors [] \<and>
   getAuthorsFromFile relativeBelow blameThrows ''/repo/src/a.ts'' ''/repo'' (Some ''Ann'')
     = getAuthorsFromFile relativeBelow (blamePrints []) ''/repo/src/a.ts'' ''/repo'' (Some ''Ann'')"
proof -
  have thrown: "blameThrows ''/repo'' (relativeBelow ''/repo'' ''/repo/src/a.ts'') = Threw"
    by (simp add: blameThrows_def)
  note w = getAuthorsFromFile_failure [where gitBlame = blameThrows and relative = relativeBelow
      and targetDir = "''/repo''" and filepath = "''/repo/src/a.ts''" and u = "''Ann''"
      and code = 0 and filterUser = "Some ''Ann''", OF thrown]
  have p: "(\<lambda>cwd path. Exited 0 []) = blamePrints []"
    by (simp add: blamePrints_def fun_eq_iff)
  have a: "getAuthorsFromFile relativeBelow blameThrows ''/repo/src/a.ts'' ''/repo'' (Some ''Ann'')
      = Count 0"
    using w [THEN conjunct1] by simp
  have b: "getAuthorsFromFile relativeBelow blameThrows ''/repo/src/a.ts'' ''/repo'' None = Authors []"
    using w [THEN conjunct2, THEN conjunct1] .
  have c: "getAuthorsFromFile relativeBelow blameThrows ''/repo/src/a.ts'' ''/repo'' (Some ''Ann'')
     = getAuthorsFromFile relativeBelow (blamePrints []) ''/repo/src/a.ts'' ''/repo'' (Some ''Ann'')"
    using w [THEN conjunct2, THEN conjunct2, THEN conjunct2] unfolding p .
  show ?thesis by (intro conjI a b c)
qed

text \<open>
  The claim C7 as stated fails at the empty string: supplied as the filter, a failure
  gives the empty sequence, not zero.
\<close>

theorem getAuthorsFromFile_failure_counterexample:
  "getAuthorsFromFile relativeBelow blameThrows ''/repo/src/a.ts'' ''/repo'' (Some '''') = Authors []"
  by code_simp

section \<open>The aggregator\<close>

lemma authorCounts_snoc:
  "authorCounts (xs @ [x]) = countAuthor (authorCounts xs) x"
  by (simp add: authorCounts_def)

lemma map_of_authorCounts:
  "map_of (authorCounts allAuthors) author =
     (if trim author \<noteq> [] \<and> author \<in> set allAuthors \<and> author \<noteq> ascii ''__proto__''
      then Some (if author \<in> set objectPrototypeMethods
                 then MemberText author (count_list allAuthors author)
                 else Lines (count_list allAuthors author))
      else None)"
proof (induction allAuthors arbitrary: author rule: rev_induct)
  case Nil
  show ?case by (simp add: authorCounts_def)
next
  case (snoc x xs)
  show ?case
  proof (cases "trim x = []")
    case True
    then have "countAuthor (authorCounts xs) x = authorCounts xs"
      by (simp add: countAuthor_def)
    then show ?thesis
      using True snoc.IH [of author] by (auto simp: authorCounts_snoc)
  next
    case False
    note live = False
    show ?thesis
    proof (cases "x \<in> set xs \<and> x \<noteq> ascii ''__proto__''")
      case True
      show ?thesis
      proof (cases "x \<in> set objectPrototypeMethods")
        case True
        then have old: "map_of (authorCounts xs) x = Some (MemberText x (count_list xs x))"
          using snoc.IH [of x] live \<open>x \<in> set xs \<and> x \<noteq> ascii ''__proto__''\<close> by simp
        have "countAuthor (authorCounts xs) x
            = AList.update x (MemberText x (count_list xs x + 1)) (authorCounts xs)"
          using live old by (simp add: countAuthor_def)
        then show ?thesis
          using snoc.IH [of author] True live \<open>x \<in> set xs \<and> x \<noteq> ascii ''__proto__''\<close>
          by (auto simp: authorCounts_snoc AList.update_conv')
      next
        case False
        then have old: "map_of (authorCounts xs) x = Some (Lines (count_list xs x))"
          using snoc.IH [of x] live \<open>x \<in> set xs \<and> x \<noteq> ascii ''__proto__''\<close> by simp
        have "countAuthor (authorCounts xs) x
            = AList.update x (Lines (count_list xs x + 1)) (authorCounts xs)"
          using live old by (simp add: countAuthor_def)
        then show ?thesis
          using snoc.IH [of author] False live \<open>x \<in> set xs \<and> x \<noteq> ascii ''__proto__''\<close>
          by (auto simp: authorCounts_snoc AList.update_conv')
      qed
    next
      case False
      then have old: "map_of (authorCounts xs) x = None"
        using snoc.IH [of x] by auto
      show ?thesis
      proof (cases "x = ascii ''__proto__''")
        case True
        then have "countAuthor (authorCounts xs) x = authorCounts xs"
          using live old by (simp add: countAuthor_def)
        then show ?thesis
          using snoc.IH [of author] True by (auto simp: authorCounts_snoc)
      next
        case False
        then have new: "x \<notin> set xs"
          using \<open>\<not> (x \<in> set xs \<and> x \<noteq> ascii ''__proto__'')\<close> by simp
        then have zero: "count_list xs x = 0"
          by (simp add: count_list_0_iff)
        have "countAuthor (authorCounts xs) x
            = AList.update x (if x \<in> set objectPrototypeMethods then MemberText x 1 else Lines 1)
                (authorCounts xs)"
          using live old False by (simp add: countAuthor_def)
        then show ?thesis
          using snoc.IH [of author] False live new zero
          by (auto simp: authorCounts_snoc AList.update_conv')
      qed
    qed
  qed
qed

lemma distinct_foldl_countAuthor:
  "distinct (map fst obj) \<Longrightarrow> distinct (map fst (foldl countAuthor obj xs))"
  by (induction xs arbitrary: obj)
     (simp_all add: countAuthor_def AList.distinct_update split: option.splits tally_value.splits)

lemma distinct_authorCounts: "distinct (map fst (authorCounts allAuthors))"
  unfolding authorCounts_def by (rule distinct_foldl_countAuthor) simp

lemma map_of_authorCounts_mset:
  assumes "mset xs = mset ys"
  shows "map_of (authorCounts xs) = map_of (authorCounts ys)"
proof
  fix a
  have "set xs = set ys"
    using assms by (rule mset_eq_setD)
  moreover have "count_list xs a = count_list ys a"
    using assms by (metis count_mset)
  ultimately show "map_of (authorCounts xs) a = map_of (authorCounts ys) a"
    by (simp add: map_of_authorCounts)
qed

lemma mset_concat_cong:
  assumes "mset rs = mset rs'"
  shows "mset (concat rs) = mset (concat rs')"
proof -
  have "mset (concat rs) = sum_mset (image_mset mset (mset rs))"
    by (simp add: mset_concat flip: sum_mset_sum_list)
  also have "\<dots> = sum_mset (image_mset mset (mset rs'))"
    using assms by simp
  also have "\<dots> = mset (concat rs')"
    by (simp add: mset_concat flip: sum_mset_sum_list)
  finally show ?thesis .
qed

lemma authorCounts_records_commute:
  "mset records = mset records' \<Longrightarrow>
   map_of (authorCounts (concat records)) = map_of (authorCounts (concat records'))"
  by (intro map_of_authorCounts_mset mset_concat_cong)

lemma authorCounts_Lines:
  assumes plain: "list_all (\<lambda>author. author \<notin> set objectPrototypeMethods) allAuthors"
    and entry: "e \<in> set (authorCounts allAuthors)"
  shows "\<exists>n. snd e = Lines n"
proof -
  obtain k v where e: "e = (k, v)" by (cases e)
  then have "map_of (authorCounts allAuthors) k = Some v"
    using entry distinct_authorCounts [of allAuthors] by simp
  then have "k \<in> set allAuthors" and v: "v = (if k \<in> set objectPrototypeMethods
                 then MemberText k (count_list allAuthors k)
                 else Lines (count_list allAuthors k))"
    by (auto simp: map_of_authorCounts split: if_splits)
  then have "k \<notin> set objectPrototypeMethods"
    using plain by (simp add: list_all_iff)
  then show ?thesis using v e by simp
qed

text \<open>
  Claim C8 (commutative aggregation) at identities that an empty object inherits. The
  tally of the author lines \<open>constructor\<close>, \<open>Ann\<close>, \<open>constructor\<close> holds, for \<open>constructor\<close>,
  the text of a function followed by \<open>11\<close> and not the count 2; and the identity
  \<open>__proto__\<close>, which is not white space, is dropped from the tally. (For every other
  identity the tally is the number of its occurrences, whatever the order of the records:
  lemmas \<open>map_of_authorCounts\<close> and \<open>authorCounts_records_commute\<close>.)
\<close>

theorem authorCounts_inherited_keys:
  "authorCounts [ascii ''constructor'', ascii ''Ann'', ascii ''constructor'']
     = [(ascii ''constructor'', MemberText (ascii ''constructor'') 2), (ascii ''Ann'', Lines 1)] \<and>
   authorCounts [ascii ''__proto__'', ascii ''Ann'', ascii ''__proto__''] = [(ascii ''Ann'', Lines 1)] \<and>
   trim (ascii ''__proto__'') = ascii ''__proto__'' \<and>
   trim (ascii ''constructor'') = ascii ''constructor''"
  by code_simp

section \<open>The sort for output\<close>

lemma mset_insertBy: "mset (insertBy cmp x ys) = add_mset x (mset ys)"
  by (induction ys) simp_all

lemma mset_sortBy: "mset (sortBy cmp xs) = mset xs"
  by (induction xs) (simp_all add: sortBy_def mset_insertBy)

lemma insertBy_numeric:
  assumes "\<forall>e \<in> set (x # ys). toNumber (snd e) \<noteq> None"
  shows "insertBy (byCountDesc toNumber) x ys
           = insort_key (\<lambda>e. - the (toNumber (snd e))) x ys"
  using assms by (induction ys) (auto simp: byCountDesc_def)

lemma sortBy_numeric:
  assumes "\<forall>e \<in> set xs. toNumber (snd e) \<noteq> None"
  shows "sortBy (byCountDesc toNumber) xs = sort_key (\<lambda>e. - the (toNumber (snd e))) xs"
  using assms
proof (induction xs)
  case Nil
  show ?case by (simp add: sortBy_def)
next
  case (Cons x xs)
  have "sortBy (byCountDesc toNumber) (x # xs)
      = insertBy (byCountDesc toNumber) x (sortBy (byCountDesc toNumber) xs)"
    by (simp add: sortBy_def)
  also have "\<dots> = insertBy (byCountDesc toNumber) x (sort_key (\<lambda>e. - the (toNumber (snd e))) xs)"
    using Cons by simp
  also have "\<dots> = insort_key (\<lambda>e. - the (toNumber (snd e))) x
                      (sort_key (\<lambda>e. - the (toNumber (snd e))) xs)"
    by (rule insertBy_numeric) (use Cons.prems in simp)
  finally show ?case by simp
qed

lemma set_Object_entries: "set (Object_entries obj) = set obj"
  by (auto simp: Object_entries_def)

lemma sortBy_numeric_sorted:
  assumes "\<forall>e \<in> set xs. toNumber (snd e) \<noteq> None"
  shows "sorted_wrt (\<lambda>x y. the (toNumber (snd y)) \<le> the (toNumber (snd x)))
           (sortBy (byCountDesc toNumber) xs)"
proof -
  have "sorted (map (\<lambda>e. - the (toNumber (snd e))) (sort_key (\<lambda>e. - the (toNumber (snd e))) xs))"
    by (rule sorted_sort_key)
  then show ?thesis
    by (simp add: sortBy_numeric [OF assms] sorted_map)
qed

lemma sortBy_numeric_stable:
  assumes "\<forall>e \<in> set xs. toNumber (snd e) \<noteq> None"
  shows "filter (\<lambda>e. the (toNumber (snd e)) = k) (sortBy (byCountDesc toNumber) xs)
           = filter (\<lambda>e. the (toNumber (snd e)) = k) xs"
proof -
  have "filter (\<lambda>e. - the (toNumber (snd e)) = - k) (sort_key (\<lambda>e. - the (toNumber (snd e))) xs)
      = filter (\<lambda>e. - the (toNumber (snd e)) = - k) xs"
    by (rule sort_key_stable)
  then show ?thesis
    by (simp add: sortBy_numeric [OF assms])
qed

lemma sortedFiles_sorted: "sorted_wrt (\<lambda>x y. snd y \<le> snd x) (sortedFiles obj)"
  using sortBy_numeric_sorted [of "Object_entries obj" countNumber]
  by (simp add: sortedFiles_def countNumber_def)

lemma sortedFiles_stable:
  "filter (\<lambda>e. snd e = c) (sortedFiles obj) = filter (\<lambda>e. snd e = c) (Object_entries obj)"
  using sortBy_numeric_stable [of "Object_entries obj" countNumber "int c"]
  by (simp add: sortedFiles_def countNumber_def)

lemma sortedAuthors_sorted:
  assumes "list_all (\<lambda>author. author \<notin> set objectPrototypeMethods) allAuthors"
  shows "sorted_wrt (\<lambda>x y. \<exists>a b. snd x = Lines a \<and> snd y = Lines b \<and> b \<le> a)
           (sortedAuthors allAuthors)"
proof -
  let ?es = "Object_entries (authorCounts allAuthors)"
  have lines: "\<exists>n. snd e = Lines n" if "e \<in> set ?es" for e
    using that authorCounts_Lines [OF assms] by (simp add: set_Object_entries)
  then have num: "\<forall>e \<in> set ?es. tallyNumber (snd e) \<noteq> None"
    by fastforce
  have sw: "sorted_wrt (\<lambda>x y. the (tallyNumber (snd y)) \<le> the (tallyNumber (snd x)))
          (sortedAuthors allAuthors)"
    unfolding sortedAuthors_def by (rule sortBy_numeric_sorted [OF num])
  have same: "set (sortedAuthors allAuthors) = set ?es"
    unfolding sortedAuthors_def using mset_sortBy [of "byCountDesc tallyNumber" ?es]
    by (rule mset_eq_setD)
  show ?thesis
  proof (rule sorted_wrt_mono_rel [OF _ sw])
    fix x y
    assume "x \<in> set (sortedAuthors allAuthors)" and "y \<in> set (sortedAuthors allAuthors)"
      and le: "the (tallyNumber (snd y)) \<le> the (tallyNumber (snd x))"
    then obtain a b where "snd x = Lines a" and "snd y = Lines b"
      using lines same by blast
    then show "\<exists>a b. snd x = Lines a \<and> snd y = Lines b \<and> b \<le> a"
      using le by simp
  qed
qed

lemma sortedAuthors_stable:
  assumes "list_all (\<lambda>author. author \<notin> set objectPrototypeMethods) allAuthors"
  shows "filter (\<lambda>e. snd e = Lines c) (sortedAuthors allAuthors)
           = filter (\<lambda>e. snd e = Lines c) (Object_entries (authorCounts allAuthors))"
proof -
  let ?es = "Object_entries (authorCounts allAuthors)"
  have lines: "\<exists>n. snd e = Lines n" if "e \<in> set ?es" for e
    using that authorCounts_Lines [OF assms] by (simp add: set_Object_entries)
  then have num: "\<forall>e \<in> set ?es. tallyNumber (snd e) \<noteq> None"
    by fastforce
  have same: "set (sortedAuthors allAuthors) = set ?es"
    unfolding sortedAuthors_def using mset_sortBy [of "byCountDesc tallyNumber" ?es]
    by (rule mset_eq_setD)
  have eqv: "(snd e = Lines c) = (the (tallyNumber (snd e)) = int c)" if "e \<in> set ?es" for e
    using lines [OF that] by auto
  have "filter (\<lambda>e. snd e = Lines c) (sortedAuthors allAuthors)
      = filter (\<lambda>e. the (tallyNumber (snd e)) = int c) (sortedAuthors allAuthors)"
    by (rule filter_cong) (simp_all add: same eqv)
  also have "\<dots> = filter (\<lambda>e. the (tallyNumber (snd e)) = int c) ?es"
    unfolding sortedAuthors_def by (rule sortBy_numeric_stable [OF num])
  also have "\<dots> = filter (\<lambda>e. snd e = Lines c) ?es"
    by (rule filter_cong) (simp_all add: eqv)
  finally show ?thesis .
qed

text \<open>
  With an entry that is no number the comparator is \<open>NaN\<close> and the entry stays where it is:
  the tally of \<open>__proto__\<close>, \<open>constructor\<close>, \<open>a\<close>, \<open>a\<close> is listed with \<open>constructor\<close> before
  \<open>a\<close>, whose count is 2.
\<close>

lemma sortedAuthors_member_text:
  "sortedAuthors (map ascii [''__proto__'', ''constructor'', ''a'', ''a''])
     = [(ascii ''constructor'', MemberText (ascii ''constructor'') 1), (ascii ''a'', Lines 2)]"
  by code_simp

text \<open>
  Claim C9 (sort key), as the code has it. The claim says that entries with equal counts
  are in ascending order of their key. The comparator of both display functions is
  \<open>b - a\<close> on the counts alone: the sorted sequence has the entries of the object, with
  counts in descending order, and the entries of one count stay in the order in which
  \<open>Object.entries\<close> lists them (insertion order, for keys that are not array indices). For
  the tally of authors this is stated for author lines that do not name a method of
  \<open>Object.prototype\<close>, whose tally entry is no number.
\<close>

theorem sorted_by_count_stable:
  "sorted_wrt (\<lambda>x y. snd y \<le> snd x) (sortedFiles userFileContributions) \<and>
   mset (sortedFiles userFileContributions) = mset (Object_entries userFileContributions) \<and>
   filter (\<lambda>e. snd e = c) (sortedFiles userFileContributions)
     = filter (\<lambda>e. snd e = c) (Object_entries userFileContributions) \<and>
   mset (sortedAuthors allAuthors) = mset (Object_entries (authorCounts allAuthors)) \<and>
   (list_all (\<lambda>author. author \<notin> set objectPrototypeMethods) allAuthors \<longrightarrow>
      sorted_wrt (\<lambda>x y. \<exists>a b. snd x = Lines a \<and> snd y = Lines b \<and> b \<le> a)
        (sortedAuthors allAuthors) \<and>
      filter (\<lambda>e. snd e = Lines c) (sortedAuthors allAuthors)
        = filter (\<lambda>e. snd e = Lines c) (Object_entries (authorCounts allAuthors)))"
proof -
  have a: "mset (sortedFiles userFileContributions) = mset (Object_entries userFileContributions)"
    by (simp add: sortedFiles_def mset_sortBy)
  have b: "mset (sortedAuthors allAuthors) = mset (Object_entries (authorCounts allAuthors))"
    by (simp add: sortedAuthors_def mset_sortBy)
  have c: "list_all (\<lambda>author. author \<notin> set objectPrototypeMethods) allAuthors \<longrightarrow>
      sorted_wrt (\<lambda>x y. \<exists>a b. snd x = Lines a \<and> snd y = Lines b \<and> b \<le> a)
        (sortedAuthors allAuthors) \<and>
      filter (\<lambda>e. snd e = Lines c) (sortedAuthors allAuthors)
        = filter (\<lambda>e. snd e = Lines c) (Object_entries (authorCounts allAuthors))"
    by (intro impI conjI sortedAuthors_sorted sortedAuthors_stable)
  show ?thesis
    by (intro conjI sortedFiles_sorted sortedFiles_stable a b c)
qed

theorem sorted_by_count_stable_witness:
  "filter (\<lambda>e. snd e = Lines 1) (sortedAuthors (map ascii [''b'', ''a'', ''c'', ''c'']))
     = [(ascii ''b'', Lines 1), (ascii ''a'', Lines 1)] \<and>
   sorted_wrt (\<lambda>x y. \<exists>a b. snd x = Lines a \<and> snd y = Lines b \<and> b \<le> a)
     (sortedAuthors (map ascii [''b'', ''a'', ''c'', ''c'']))"
proof -
  have e: "Object_entries (authorCounts (map ascii [''b'', ''a'', ''c'', ''c'']))
      = [(ascii ''b'', Lines 1), (ascii ''a'', Lines 1), (ascii ''c'', Lines 2)]"
    by code_simp
  have plain: "list_all (\<lambda>author. author \<notin> set objectPrototypeMethods)
      (map ascii [''b'', ''a'', ''c'', ''c''])"
    by code_simp
  note w = sorted_by_count_stable [where allAuthors = "map ascii [''b'', ''a'', ''c'', ''c'']"
      and c = 1, THEN conjunct2, THEN conjunct2, THEN conjunct2, THEN conjunct2, THEN mp, OF plain]
  have "filter (\<lambda>e. snd e = Lines 1) (sortedAuthors (map ascii [''b'', ''a'', ''c'', ''c'']))
      = filter (\<lambda>e. snd e = Lines 1) [(ascii ''b'', Lines 1), (ascii ''a'', Lines 1), (ascii ''c'', Lines 2)]"
    using w [THEN conjunct2] unfolding e .
  then have a: "filter (\<lambda>e. snd e = Lines 1) (sortedAuthors (map ascii [''b'', ''a'', ''c'', ''c'']))
      = [(ascii ''b'', Lines 1), (ascii ''a'', Lines 1)]"
    by simp
  show ?thesis
    by (intro conjI a w [THEN conjunct1])
qed

text \<open>
  The claim C9 as stated fails for two authors, and for two files, with equal counts
  inserted in descending order of their names: they stay in that order.
\<close>

theorem sorted_by_count_counterexample:
  "sortedAuthors [ascii ''b'', ascii ''a''] = [(ascii ''b'', Lines 1), (ascii ''a'', Lines 1)] \<and>
   ascii ''a'' < ascii ''b'' \<and>
   sortedFiles [(ascii ''src/z.ts'', 2), (ascii ''src/a.ts'', 2)]
     = [(ascii ''src/z.ts'', 2), (ascii ''src/a.ts'', 2)] \<and>
   ascii ''src/a.ts'' < ascii ''src/z.ts''"
  by code_simp

end
